theory Spec2Isabelle
  imports Complex_Main "HOL-Library.Word"
begin

section \<open>IEEE 754 binary64 arithmetic, as far as the limiter uses it\<close>

text \<open>
  Go's \<open>float64\<close>.  A finite value is identified with the real number it denotes;
  \<open>+0\<close> and \<open>-0\<close> are one value, which no operation of this program tells apart
  (it compares, multiplies, adds, converts to \<open>uint\<close> and divides by the non-zero
  constants \<open>5000.0\<close> and \<open>1e9\<close> only).  Every operation computes the exact real
  result and rounds it to the nearest binary64 value, ties to even.
\<close>

datatype f64 = Fin real | PInf | NInf | NaN

fun bitlen :: "nat \<Rightarrow> nat" where
  "bitlen n = (if n = 0 then 0 else Suc (bitlen (n div 2)))"

declare bitlen.simps [simp del]

text \<open>The binary exponent \<open>e\<close> of a positive real: \<open>2^e \<le> a < 2^(e+1)\<close>.\<close>

definition exponent :: "real \<Rightarrow> int" where
  "exponent a =
     (if 1 \<le> a then int (bitlen (nat \<lfloor>a\<rfloor>)) - 1
      else - int (bitlen (nat (\<lceil>1 / a\<rceil> - 1))))"

definition round_even :: "real \<Rightarrow> int" where
  "round_even x =
     (let f = \<lfloor>x\<rfloor>; d = x - of_int f
      in if d < 1 / 2 then f
         else if 1 / 2 < d then f + 1
         else if even f then f else f + 1)"

text \<open>
  The spacing of binary64 values around \<open>a\<close>: 53 significant bits, and no finer than
  \<open>2^-1074\<close> (the subnormal range).
\<close>

definition quantum :: "real \<Rightarrow> real" where
  "quantum a = 2 powi (max (exponent a) (- 1022) - 52)"

definition quantize :: "real \<Rightarrow> real" where
  "quantize a = (if a = 0 then 0 else of_int (round_even (a / quantum a)) * quantum a)"

text \<open>
  Rounding to nearest, ties to even.  A magnitude of at least \<open>2^1024 - 2^970\<close>
  (half a unit above the largest finite value) rounds to infinity.
\<close>

definition round64 :: "real \<Rightarrow> f64" where
  "round64 x =
     (if 2 ^ 1024 - 2 ^ 970 \<le> \<bar>x\<bar> then (if 0 < x then PInf else NInf)
      else Fin (sgn x * quantize \<bar>x\<bar>))"

fun f64_mul :: "f64 \<Rightarrow> f64 \<Rightarrow> f64" where
  "f64_mul NaN y = NaN"
| "f64_mul x NaN = NaN"
| "f64_mul (Fin a) (Fin b) = round64 (a * b)"
| "f64_mul (Fin a) PInf = (if a = 0 then NaN else if 0 < a then PInf else NInf)"
| "f64_mul (Fin a) NInf = (if a = 0 then NaN else if 0 < a then NInf else PInf)"
| "f64_mul PInf (Fin b) = (if b = 0 then NaN else if 0 < b then PInf else NInf)"
| "f64_mul NInf (Fin b) = (if b = 0 then NaN else if 0 < b then NInf else PInf)"
| "f64_mul PInf PInf = PInf"
| "f64_mul PInf NInf = NInf"
| "f64_mul NInf PInf = NInf"
| "f64_mul NInf NInf = PInf"

fun f64_add :: "f64 \<Rightarrow> f64 \<Rightarrow> f64" where
  "f64_add NaN y = NaN"
| "f64_add x NaN = NaN"
| "f64_add (Fin a) (Fin b) = round64 (a + b)"
| "f64_add PInf NInf = NaN"
| "f64_add NInf PInf = NaN"
| "f64_add PInf y = PInf"
| "f64_add NInf y = NInf"
| "f64_add (Fin a) y = y"

text \<open>
  Division.  The program divides by the constants \<open>5000.0\<close> and \<open>1e9\<close> only; for a
  zero divisor the equation below is the one for \<open>+0\<close>.
\<close>

fun f64_div :: "f64 \<Rightarrow> f64 \<Rightarrow> f64" where
  "f64_div NaN y = NaN"
| "f64_div x NaN = NaN"
| "f64_div (Fin a) (Fin b) =
     (if b = 0 then (if a = 0 then NaN else if 0 < a then PInf else NInf)
      else round64 (a / b))"
| "f64_div (Fin a) y = Fin 0"
| "f64_div PInf (Fin b) = (if 0 \<le> b then PInf else NInf)"
| "f64_div NInf (Fin b) = (if 0 \<le> b then NInf else PInf)"
| "f64_div x y = NaN"

text \<open>Comparison: every comparison with \<open>NaN\<close> is false.\<close>

fun f64_less :: "f64 \<Rightarrow> f64 \<Rightarrow> bool" where
  "f64_less NaN y = False"
| "f64_less x NaN = False"
| "f64_less (Fin a) (Fin b) = (a < b)"
| "f64_less x NInf = False"
| "f64_less NInf y = True"
| "f64_less PInf y = False"
| "f64_less (Fin a) PInf = True"

definition f64_of_int :: "int \<Rightarrow> f64" where
  "f64_of_int i = round64 (of_int i)"

type_synonym uint = "64 word"

definition f64_of_uint :: "uint \<Rightarrow> f64" where
  "f64_of_uint w = round64 (of_nat (unat w))"

text \<open>
  The conversion \<open>uint(x)\<close> of a non-constant \<open>float64\<close>.  The fraction is discarded.
  When the truncated value is not a \<open>uint\<close> (it is negative, or \<open>2^64\<close> or more, or \<open>x\<close>
  is infinite or not a number), the Go specification lets the conversion succeed with an
  implementation-dependent value: that value is the parameter \<open>cv\<close>, the platform's
  choice, and everything below holds for every platform unless it says otherwise.
\<close>

definition trunc :: "real \<Rightarrow> int" where
  "trunc q = (if 0 \<le> q then \<lfloor>q\<rfloor> else \<lceil>q\<rceil>)"

fun uint_of_f64 :: "(f64 \<Rightarrow> uint) \<Rightarrow> f64 \<Rightarrow> uint" where
  "uint_of_f64 cv (Fin q) =
     (if 0 \<le> trunc q \<and> trunc q < 2 ^ 64 then word_of_int (trunc q) else cv (Fin q))"
| "uint_of_f64 cv x = cv x"

section \<open>Construction and validation\<close>

text \<open>
  \<open>uint\<close> is taken at 64 bits (\<open>math.MaxUint = 2^64 - 1\<close>), the width of the platforms
  the repository is benchmarked on.  In \<open>tokenRate*5000 > math.MaxUint\<close> the untyped
  constant is converted to \<open>float64\<close>, that is rounded.
\<close>

definition MaxUint :: nat where
  "MaxUint = 2 ^ 64 - 1"

datatype error = Error string

definition validate :: "f64 \<Rightarrow> uint \<Rightarrow> error option" where
  "validate tokenRate burstSize =
     (if f64_less tokenRate (Fin 0) then Some (Error ''token rate should not be negative'')
      else if f64_less (round64 (of_nat MaxUint)) (f64_mul tokenRate (Fin 5000))
        then Some (Error ''token rate limit overflow'')
      else let maxValue = (word_of_nat MaxUint :: uint)
        in if f64_less (f64_div (f64_of_uint (maxValue - burstSize)) (Fin 5000)) tokenRate
           then Some (Error ''limit overflow'')
           else None)"

text \<open>
  The limiter: the two fields \<open>New\<close> fixes.  The map \<open>m\<close> and the channel \<open>done\<close> of
  the Go struct are mutable and shared; they are part of the state further down.
\<close>

record rateLimiter =
  tokenRate :: f64
  burstSize :: uint

definition New :: "f64 \<Rightarrow> uint \<Rightarrow> error + rateLimiter" where
  "New rate burst =
     (case validate rate burst of
        Some err \<Rightarrow> Inl err
      | None \<Rightarrow> Inr \<lparr>tokenRate = rate, burstSize = burst\<rparr>)"

section \<open>Time\<close>

text \<open>
  A \<open>time.Time\<close> is an instant on one timeline, counted in nanoseconds; two instants are
  equal when their counts are.  A \<open>time.Duration\<close> is an \<open>int64\<close> count of nanoseconds:
  \<open>Sub\<close> saturates at the least and the greatest \<open>int64\<close>.
\<close>

type_synonym time = int
type_synonym duration = int
type_synonym key = string

definition minDuration :: duration where
  "minDuration = - (2 ^ 63)"

definition maxDuration :: duration where
  "maxDuration = 2 ^ 63 - 1"

definition Second :: duration where
  "Second = 1000000000"

definition Hour :: duration where
  "Hour = 3600 * Second"

definition Sub :: "time \<Rightarrow> time \<Rightarrow> duration" where
  "Sub t u = (if t - u < minDuration then minDuration
              else if maxDuration < t - u then maxDuration else t - u)"

text \<open>Go's integer division truncates towards zero; the remainder has the dividend's sign.\<close>

definition quo :: "int \<Rightarrow> int \<Rightarrow> int" where
  "quo a b = sgn a * sgn b * (\<bar>a\<bar> div \<bar>b\<bar>)"

definition rem :: "int \<Rightarrow> int \<Rightarrow> int" where
  "rem a b = a - b * quo a b"

text \<open>
  \<open>Duration.Seconds\<close>: \<open>sec := d / Second; nsec := d % Second;
  return float64(sec) + float64(nsec)/1e9\<close>.
\<close>

definition Seconds :: "duration \<Rightarrow> f64" where
  "Seconds d =
     (let sec = quo d Second; nsec = rem d Second
      in f64_add (f64_of_int sec) (f64_div (f64_of_int nsec) (Fin 1000000000)))"

section \<open>Buckets and the operations of the store\<close>

record bucket =
  tokens :: uint
  lastRefill :: time
  lastActivity :: time

type_synonym store = "key \<rightharpoonup> bucket"

text \<open>
  The atomic operations of \<open>sync.Map\<close> that the limiter calls.  \<open>LoadOrStore\<close> returns the
  present value and \<open>True\<close>, or stores the given one and returns it with \<open>False\<close>.
  \<open>CompareAndSwap\<close> replaces the value of a present key that equals \<open>old\<close>.
\<close>

definition map_Load :: "store \<Rightarrow> key \<Rightarrow> bucket option" where
  "map_Load m k = m k"

definition map_LoadOrStore :: "store \<Rightarrow> key \<Rightarrow> bucket \<Rightarrow> (bucket \<times> bool) \<times> store" where
  "map_LoadOrStore m k b =
     (case m k of
        Some actual \<Rightarrow> ((actual, True), m)
      | None \<Rightarrow> ((b, False), m(k \<mapsto> b)))"

definition map_CompareAndSwap :: "store \<Rightarrow> key \<Rightarrow> bucket \<Rightarrow> bucket \<Rightarrow> bool \<times> store" where
  "map_CompareAndSwap m k old new =
     (if m k = Some old then (True, m(k \<mapsto> new)) else (False, m))"

definition map_Delete :: "store \<Rightarrow> key \<Rightarrow> store" where
  "map_Delete m k = m(k := None)"

section \<open>Allow\<close>

text \<open>
  \<open>Allow\<close> reads the clock and the shared map at separate moments, and other goroutines
  run in between.  It is therefore a tree of atomic actions: each node is one call of
  \<open>now\<close> or of an operation of the map, and its continuation takes what the call returns.
\<close>

datatype 'a prog =
    Ret 'a
  | Now "time \<Rightarrow> 'a prog"
  | Load key "bucket option \<Rightarrow> 'a prog"
  | LoadOrStore key bucket "bucket \<times> bool \<Rightarrow> 'a prog"
  | CompareAndSwap key bucket bucket "bool \<Rightarrow> 'a prog"

definition maxCASRetries :: nat where
  "maxCASRetries = 100"

text \<open>The bucket a first request creates: one token is already consumed.\<close>

definition fresh :: "rateLimiter \<Rightarrow> time \<Rightarrow> bucket" where
  "fresh r t = \<lparr>tokens = burstSize r - 1, lastRefill = t, lastActivity = t\<rparr>"

text \<open>\<open>uint(r.tokenRate * timeElapsed.Seconds())\<close>\<close>

definition grant :: "(f64 \<Rightarrow> uint) \<Rightarrow> rateLimiter \<Rightarrow> duration \<Rightarrow> uint" where
  "grant cv r timeElapsed = uint_of_f64 cv (f64_mul (tokenRate r) (Seconds timeElapsed))"

text \<open>Filling the bucket at the token rate; the sum is a \<open>uint\<close> and wraps.\<close>

definition refill :: "(f64 \<Rightarrow> uint) \<Rightarrow> rateLimiter \<Rightarrow> bucket \<Rightarrow> time \<Rightarrow> bucket" where
  "refill cv r buck t =
     (let timeElapsed = Sub t (lastRefill buck);
          newTokens = min (burstSize r) (grant cv r timeElapsed + tokens buck)
      in if tokens buck \<noteq> newTokens
         then buck\<lparr>tokens := newTokens, lastRefill := t\<rparr>
         else buck)"

definition consume :: "bucket \<Rightarrow> time \<Rightarrow> bucket" where
  "consume buck t = buck\<lparr>lastActivity := t, tokens := tokens buck - 1\<rparr>"

text \<open>
  The second half of an iteration, from the second \<open>t = now()\<close> on; \<open>val\<close> is the loaded
  snapshot and \<open>retry\<close> is the rest of the loop, where \<open>continue\<close> goes.
\<close>

definition update :: "(f64 \<Rightarrow> uint) \<Rightarrow> rateLimiter \<Rightarrow> key \<Rightarrow> bool prog \<Rightarrow> bucket \<Rightarrow> bool prog" where
  "update cv r k retry val =
     Now (\<lambda>t. let buck = refill cv r val t
              in if 0 < tokens buck
                 then CompareAndSwap k val (consume buck t)
                        (\<lambda>swapped. if swapped then Ret True else retry)
                 else Ret False)"

definition iteration :: "(f64 \<Rightarrow> uint) \<Rightarrow> rateLimiter \<Rightarrow> key \<Rightarrow> bool prog \<Rightarrow> bool prog" where
  "iteration cv r k retry =
     Now (\<lambda>t. Load k (\<lambda>v. case v of
        None \<Rightarrow> LoadOrStore k (fresh r t)
                 (\<lambda>(actual, loaded). if \<not> loaded then Ret True else update cv r k retry actual)
      | Some val \<Rightarrow> update cv r k retry val))"

text \<open>\<open>for range maxCASRetries\<close>; falling out of the loop returns \<open>false\<close>.\<close>

primrec loop :: "(f64 \<Rightarrow> uint) \<Rightarrow> rateLimiter \<Rightarrow> key \<Rightarrow> nat \<Rightarrow> bool prog" where
  "loop cv r k 0 = Ret False"
| "loop cv r k (Suc n) = iteration cv r k (loop cv r k n)"

definition Allow :: "(f64 \<Rightarrow> uint) \<Rightarrow> rateLimiter \<Rightarrow> key \<Rightarrow> bool prog" where
  "Allow cv r k = (if burstSize r = 0 then Ret False else loop cv r k maxCASRetries)"

subsection \<open>One goroutine on its own\<close>

text \<open>
  Running a call with no other goroutine in between.  The clock is a sequence of
  readings, one for each call of \<open>now\<close>; the state counts the readings taken.
\<close>

record world =
  m :: store
  ticks :: nat

primrec exec :: "'a prog \<Rightarrow> (nat \<Rightarrow> time) \<Rightarrow> world \<Rightarrow> 'a \<times> world" where
  "exec (Ret x) clk w = (x, w)"
| "exec (Now f) clk w = exec (f (clk (ticks w))) clk (w\<lparr>ticks := Suc (ticks w)\<rparr>)"
| "exec (Load k f) clk w = exec (f (map_Load (m w) k)) clk w"
| "exec (LoadOrStore k b f) clk w =
     exec (f (fst (map_LoadOrStore (m w) k b))) clk (w\<lparr>m := snd (map_LoadOrStore (m w) k b)\<rparr>)"
| "exec (CompareAndSwap k old new f) clk w =
     exec (f (fst (map_CompareAndSwap (m w) k old new))) clk
       (w\<lparr>m := snd (map_CompareAndSwap (m w) k old new)\<rparr>)"

text \<open>Several calls for one key, one after the other.\<close>

primrec calls :: "(f64 \<Rightarrow> uint) \<Rightarrow> rateLimiter \<Rightarrow> key \<Rightarrow> (nat \<Rightarrow> time) \<Rightarrow> nat \<Rightarrow> world \<Rightarrow> bool list \<times> world" where
  "calls cv r k clk 0 w = ([], w)"
| "calls cv r k clk (Suc n) w =
     (let (b, w') = exec (Allow cv r k) clk w;
          (bs, w'') = calls cv r k clk n w'
      in (b # bs, w''))"

subsection \<open>Goroutines running together\<close>

text \<open>One atomic action of a call, on the shared map and at the clock's present reading.\<close>

fun step :: "store \<Rightarrow> time \<Rightarrow> 'a prog \<Rightarrow> 'a prog \<times> store" where
  "step mem t (Ret x) = (Ret x, mem)"
| "step mem t (Now f) = (f t, mem)"
| "step mem t (Load k f) = (f (map_Load mem k), mem)"
| "step mem t (LoadOrStore k b f) =
     (f (fst (map_LoadOrStore mem k b)), snd (map_LoadOrStore mem k b))"
| "step mem t (CompareAndSwap k old new f) =
     (f (fst (map_CompareAndSwap mem k old new)), snd (map_CompareAndSwap mem k old new))"

text \<open>
  \<open>Close\<close> is \<open>close(r.done)\<close>: closing a channel that is closed already panics.
\<close>

datatype chan = Open | Closed

datatype panic = Panic string

definition Close :: "chan \<Rightarrow> panic + chan" where
  "Close d = (case d of Open \<Rightarrow> Inr Closed | Closed \<Rightarrow> Inl (Panic ''close of closed channel''))"

primrec closes :: "nat \<Rightarrow> chan \<Rightarrow> panic + chan" where
  "closes 0 d = Inr d"
| "closes (Suc n) d = (case Close d of Inl p \<Rightarrow> Inl p | Inr d' \<Rightarrow> closes n d')"

text \<open>
  The goroutine that \<open>New\<close> starts.  In \<open>Range\<close> it is handed a key and a value of the
  map (\<open>Visiting\<close>), then reads the clock and deletes the key when the value's last
  activity is an hour old or more.  Between two visits it is \<open>Idle\<close>; it may leave once
  the channel \<open>done\<close> (here \<open>done_chan\<close>) is closed.  The ticker's period is not modelled: a visit can come at any time.
\<close>

datatype sweeper = Idle | Visiting key bucket | Exited

record sys =
  mem :: store
  clock :: time
  threads :: "bool prog list"
  janitor :: sweeper
  done_chan :: chan

datatype event =
    Call key
  | Step nat
  | Clock time
  | Visit key
  | Decide
  | Exit
  | CloseCall

definition init :: "time \<Rightarrow> sys" where
  "init t = \<lparr>mem = Map.empty, clock = t, threads = [], janitor = Idle, done_chan = Open\<rparr>"

definition sys_step :: "(f64 \<Rightarrow> uint) \<Rightarrow> rateLimiter \<Rightarrow> event \<Rightarrow> sys \<Rightarrow> panic + sys" where
  "sys_step cv r ev s =
     (case ev of
        Call k \<Rightarrow> Inr (s\<lparr>threads := threads s @ [Allow cv r k]\<rparr>)
      | Step i \<Rightarrow>
          (if i < length (threads s)
           then Inr (s\<lparr>threads := (threads s)[i := fst (step (mem s) (clock s) (threads s ! i))],
                       mem := snd (step (mem s) (clock s) (threads s ! i))\<rparr>)
           else Inr s)
      | Clock t \<Rightarrow> Inr (s\<lparr>clock := t\<rparr>)
      | Visit k \<Rightarrow>
          (case (janitor s, mem s k) of
             (Idle, Some b) \<Rightarrow> Inr (s\<lparr>janitor := Visiting k b\<rparr>)
           | _ \<Rightarrow> Inr s)
      | Decide \<Rightarrow>
          (case janitor s of
             Visiting k buck \<Rightarrow>
               Inr (s\<lparr>janitor := Idle,
                      mem := (if Hour \<le> Sub (clock s) (lastActivity buck)
                              then map_Delete (mem s) k else mem s)\<rparr>)
           | _ \<Rightarrow> Inr s)
      | Exit \<Rightarrow> (if janitor s = Idle \<and> done_chan s = Closed then Inr (s\<lparr>janitor := Exited\<rparr>) else Inr s)
      | CloseCall \<Rightarrow>
          (case Close (done_chan s) of Inl p \<Rightarrow> Inl p | Inr d \<Rightarrow> Inr (s\<lparr>done_chan := d\<rparr>)))"

primrec run :: "(f64 \<Rightarrow> uint) \<Rightarrow> rateLimiter \<Rightarrow> event list \<Rightarrow> sys \<Rightarrow> panic + sys" where
  "run cv r [] s = Inr s"
| "run cv r (ev # evs) s =
     (case sys_step cv r ev s of Inl p \<Rightarrow> Inl p | Inr s' \<Rightarrow> run cv r evs s')"

subsection \<open>The points of a call\<close>

text \<open>
  The states a call passes through between its atomic actions: about to \<open>Load\<close> with the
  first clock reading \<open>t\<close>, about to \<open>LoadOrStore\<close> the fresh bucket, and about to
  \<open>CompareAndSwap\<close> the snapshot \<open>val\<close> for \<open>new\<close>.  The other two points are
  \<open>iteration\<close> (about to read the clock at the head of the loop) and \<open>update\<close> (about to
  read it for the second time).
\<close>

definition at_LoadOrStore :: "(f64 \<Rightarrow> uint) \<Rightarrow> rateLimiter \<Rightarrow> key \<Rightarrow> bool prog \<Rightarrow> time \<Rightarrow> bool prog" where
  "at_LoadOrStore cv r k retry t =
     LoadOrStore k (fresh r t)
       (\<lambda>(actual, loaded). if \<not> loaded then Ret True else update cv r k retry actual)"

definition at_Load :: "(f64 \<Rightarrow> uint) \<Rightarrow> rateLimiter \<Rightarrow> key \<Rightarrow> bool prog \<Rightarrow> time \<Rightarrow> bool prog" where
  "at_Load cv r k retry t =
     Load k (\<lambda>v. case v of
        None \<Rightarrow> at_LoadOrStore cv r k retry t
      | Some val \<Rightarrow> update cv r k retry val)"

definition at_CompareAndSwap :: "key \<Rightarrow> bool prog \<Rightarrow> bucket \<Rightarrow> bucket \<Rightarrow> bool prog" where
  "at_CompareAndSwap k retry val new =
     CompareAndSwap k val new (\<lambda>swapped. if swapped then Ret True else retry)"

subsection \<open>The states of a call\<close>

text \<open>
  The states a call of \<open>Allow\<close> for the key \<open>k\<close> can be in: returned, at the head of the
  loop with \<open>n\<close> iterations left, or at one of the points above inside an iteration.  A
  pending \<open>CompareAndSwap\<close> always carries the refilled snapshot less one token.
\<close>

inductive call_state :: "(f64 \<Rightarrow> uint) \<Rightarrow> rateLimiter \<Rightarrow> key \<Rightarrow> bool prog \<Rightarrow> bool"
  for cv :: "f64 \<Rightarrow> uint" and r :: rateLimiter and k :: key where
  returned: "call_state cv r k (Ret b)"
| head: "burstSize r \<noteq> 0 \<Longrightarrow> call_state cv r k (loop cv r k n)"
| loading: "burstSize r \<noteq> 0 \<Longrightarrow> call_state cv r k (at_Load cv r k (loop cv r k n) t)"
| inserting: "burstSize r \<noteq> 0 \<Longrightarrow> call_state cv r k (at_LoadOrStore cv r k (loop cv r k n) t)"
| updating: "burstSize r \<noteq> 0 \<Longrightarrow> call_state cv r k (update cv r k (loop cv r k n) val)"
| swapping: "burstSize r \<noteq> 0 \<Longrightarrow> 0 < tokens (refill cv r val t) \<Longrightarrow>
     call_state cv r k (at_CompareAndSwap k (loop cv r k n) val (consume (refill cv r val t) t))"

text \<open>
  A call among other goroutines: its atomic actions are taken one by one, each in the
  map and at the clock reading it finds at that moment, and between two of them the
  others may have changed the map in any way.  \<open>after p env\<close> is the state of the call
  after the actions listed in \<open>env\<close>; \<open>quiet p env\<close> says that none of these actions
  changed the map.
\<close>

primrec after :: "'a prog \<Rightarrow> (store \<times> time) list \<Rightarrow> 'a prog" where
  "after p [] = p"
| "after p (e # env) = after (fst (step (fst e) (snd e) p)) env"

primrec quiet :: "'a prog \<Rightarrow> (store \<times> time) list \<Rightarrow> bool" where
  "quiet p [] = True"
| "quiet p (e # env) =
     (snd (step (fst e) (snd e) p) = fst e \<and> quiet (fst (step (fst e) (snd e) p)) env)"

subsection \<open>The invariant of the map\<close>

text \<open>
  Every bucket in the map holds at most \<open>burstSize\<close> tokens (and, a \<open>uint\<close>, not less
  than none).  \<open>sys_ok\<close> adds what keeps it so: every goroutine is in a state of a call.
\<close>

definition within_capacity :: "rateLimiter \<Rightarrow> store \<Rightarrow> bool" where
  "within_capacity r st = (\<forall>k b. st k = Some b \<longrightarrow> tokens b \<le> burstSize r)"

definition sys_ok :: "(f64 \<Rightarrow> uint) \<Rightarrow> rateLimiter \<Rightarrow> sys \<Rightarrow> bool" where
  "sys_ok cv r s =
     (within_capacity r (mem s) \<and> (\<forall>p \<in> set (threads s). \<exists>k. call_state cv r k p))"

subsection \<open>Calls racing for one key\<close>




text \<open>
  Counting the calls that have returned \<open>true\<close>.
\<close>

fun is_allowed :: "bool prog \<Rightarrow> bool" where
  "is_allowed (Ret b) = b"
| "is_allowed p = False"

definition allowed :: "bool prog list \<Rightarrow> nat" where
  "allowed ps = length (filter is_allowed ps)"

text \<open>
  The sum \<open>grant + tokens\<close> of a refill does not wrap for a bucket within its capacity,
  whatever time has elapsed.
\<close>

definition no_wrap :: "(f64 \<Rightarrow> uint) \<Rightarrow> rateLimiter \<Rightarrow> bool" where
  "no_wrap cv r =
     (\<forall>d. minDuration \<le> d \<and> d \<le> maxDuration \<longrightarrow> unat (grant cv r d) + unat (burstSize r) < 2 ^ 64)"


text \<open>
  The invariant of \<open>N\<close> calls racing for the key \<open>k\<close> of a limiter with
  \<open>burstSize = N\<close>.  \<open>W\<close> is the number of calls that have returned \<open>true\<close>, which is
  the number of writes to the key so far, and \<open>cur\<close> the key's present bucket.  A call
  with \<open>n\<close> iterations left after the present one has failed \<open>99 - n\<close> times; each
  failure is owed to a write of its own, later than the write that created the key.  A
  snapshot \<open>val\<close> that is no longer current is owed one write more.  A bucket, current
  or snapshot, holds at least \<open>N - W\<close> tokens.
\<close>

definition snapshot_ok :: "rateLimiter \<Rightarrow> nat \<Rightarrow> nat \<Rightarrow> bucket option \<Rightarrow> nat \<Rightarrow> bucket \<Rightarrow> bool" where
  "snapshot_ok r N W cur n val =
     (100 - n \<le> W \<and> (cur \<noteq> Some val \<longrightarrow> 101 - n \<le> W)
      \<and> N \<le> unat (tokens val) + W \<and> tokens val \<le> burstSize r)"

inductive racing ::
  "(f64 \<Rightarrow> uint) \<Rightarrow> rateLimiter \<Rightarrow> key \<Rightarrow> nat \<Rightarrow> nat \<Rightarrow> bucket option \<Rightarrow> bool prog \<Rightarrow> bool"
  for cv :: "f64 \<Rightarrow> uint" and r :: rateLimiter and k :: key and N :: nat and W :: nat
    and cur :: "bucket option" where
  allowed: "racing cv r k N W cur (Ret True)"
| head: "1 \<le> n \<Longrightarrow> n \<le> 100 \<Longrightarrow> n = 100 \<or> 101 - n \<le> W \<Longrightarrow>
     racing cv r k N W cur (loop cv r k n)"
| loading: "n \<le> 99 \<Longrightarrow> n = 99 \<or> 100 - n \<le> W \<Longrightarrow>
     racing cv r k N W cur (at_Load cv r k (loop cv r k n) t)"
| inserting: "n \<le> 99 \<Longrightarrow> n = 99 \<or> 100 - n \<le> W \<Longrightarrow>
     racing cv r k N W cur (at_LoadOrStore cv r k (loop cv r k n) t)"
| updating: "n \<le> 99 \<Longrightarrow> snapshot_ok r N W cur n val \<Longrightarrow>
     racing cv r k N W cur (update cv r k (loop cv r k n) val)"
| swapping: "n \<le> 99 \<Longrightarrow> snapshot_ok r N W cur n val \<Longrightarrow> 0 < tokens (refill cv r val t) \<Longrightarrow>
     racing cv r k N W cur
       (at_CompareAndSwap k (loop cv r k n) val (consume (refill cv r val t) t))"


subsection \<open>The refill as the specification words it\<close>

text \<open>
  The token count of the specification's refill, on exact numbers:
  \<open>min(burstSize, oldTokens + floor(tokenRate * elapsedSeconds))\<close>.
\<close>

definition spec_candidateTokens :: "real \<Rightarrow> nat \<Rightarrow> nat \<Rightarrow> real \<Rightarrow> nat" where
  "spec_candidateTokens rate burst oldTokens elapsedSeconds =
     min burst (oldTokens + nat \<lfloor>rate * elapsedSeconds\<rfloor>)"

subsection \<open>One platform's conversion\<close>

text \<open>
  A conversion \<open>uint(x)\<close> that truncates and keeps the low 64 bits of the two's
  complement result, so that \<open>uint(-5.0) = 2^64 - 5\<close>.
\<close>

definition wrapping :: "f64 \<Rightarrow> uint" where
  "wrapping x = (case x of Fin q \<Rightarrow> word_of_int (trunc q) | _ \<Rightarrow> 0)"

section \<open>Properties\<close>

subsection \<open>Evaluating the arithmetic\<close>

lemma bitlen_numeral [simp]:
  "bitlen 0 = 0"
  "bitlen (Suc 0) = Suc 0"
  "bitlen 1 = 1"
  "bitlen (numeral (Num.Bit0 b)) = Suc (bitlen (numeral b))"
  "bitlen (numeral (Num.Bit1 b)) = Suc (bitlen (numeral b))"
  by (subst bitlen.simps, simp)+

lemmas f64_eval =
  round64_def quantize_def quantum_def exponent_def round_even_def power_int_def Let_def
  power_one_over

lemmas grant_eval =
  grant_def Seconds_def quo_def rem_def Second_def f64_of_int_def Sub_def minDuration_def
  maxDuration_def trunc_def f64_eval

subsection \<open>Rounding keeps the sign and, below the overflow threshold, is finite\<close>

lemma bitlen_pow: "0 < n \<Longrightarrow> 2 ^ (bitlen n - 1) \<le> n"
proof (induction n rule: bitlen.induct)
  case (1 n)
  show ?case
  proof (cases "n div 2 = 0")
    case True
    with "1.prems" have "n = 1" by (simp add: div_eq_0_iff)
    then show ?thesis by simp
  next
    case False
    then have pos: "0 < n div 2" by simp
    with "1.prems" have ih: "2 ^ (bitlen (n div 2) - 1) \<le> n div 2"
      using "1.IH" by simp
    have b: "0 < bitlen (n div 2)"
      using pos by (subst bitlen.simps) simp
    have "bitlen n = Suc (bitlen (n div 2))"
      using "1.prems" by (subst bitlen.simps) simp
    then have "(2::nat) ^ (bitlen n - 1) = 2 * 2 ^ (bitlen (n div 2) - 1)"
      using b by (cases "bitlen (n div 2)") simp_all
    also have "\<dots> \<le> 2 * (n div 2)" using ih by simp
    also have "\<dots> \<le> n" by simp
    finally show ?thesis .
  qed
qed

lemma quantum_pos: "0 < quantum a"
  by (simp add: quantum_def)

lemma quantum_le: 
  assumes "0 < a" shows "quantum a \<le> max a 1"
proof (cases "1 \<le> a")
  case True
  define n where "n = nat \<lfloor>a\<rfloor>"
  have n: "0 < n" "real n \<le> a" using True by (simp_all add: n_def)
  have e: "exponent a = int (bitlen n) - 1"
    using True by (simp add: exponent_def n_def)
  have bl: "0 < bitlen n" using n by (subst bitlen.simps) simp
  then have e': "exponent a = int (bitlen n - 1)" using e by simp
  have "quantum a = 2 powi (int (bitlen n - 1) - 52)"
    by (simp add: quantum_def e' max_def)
  also have "\<dots> \<le> 2 powi (int (bitlen n - 1))"
    by (rule power_int_increasing) simp_all
  also have "\<dots> = real (2 ^ (bitlen n - 1))" by simp
  also have "\<dots> \<le> real n" using bitlen_pow [OF n(1)] by (simp only: of_nat_le_iff)
  finally show ?thesis using n by simp
next
  case False
  then have "exponent a \<le> 0" by (simp add: exponent_def)
  then have "max (exponent a) (- 1022) - 52 \<le> 0" by simp
  then have "quantum a \<le> 2 powi 0"
    unfolding quantum_def by (intro power_int_increasing) simp_all
  then show ?thesis by simp
qed

lemma round_even_bounds:
  "real_of_int (round_even x) \<le> x + 1" "0 \<le> x \<Longrightarrow> 0 \<le> round_even x"
  by (auto simp: round_even_def Let_def) linarith+

lemma quantize_bounds:
  assumes "0 \<le> a"
  shows "0 \<le> quantize a" "quantize a \<le> 2 * a + 1"
proof -
  show "0 \<le> quantize a"
    using assms quantum_pos [of a] round_even_bounds(2) [of "a / quantum a"]
    by (simp add: quantize_def)
  show "quantize a \<le> 2 * a + 1"
  proof (cases "a = 0")
    case True then show ?thesis by (simp add: quantize_def)
  next
    case False
    with assms have pos: "0 < a" by simp
    have "quantize a = real_of_int (round_even (a / quantum a)) * quantum a"
      using False by (simp add: quantize_def)
    also have "\<dots> \<le> (a / quantum a + 1) * quantum a"
      using round_even_bounds(1) [of "a / quantum a"] quantum_pos [of a]
      by (intro mult_right_mono) simp_all
    also have "\<dots> = a + quantum a"
      using quantum_pos [of a] by (simp add: field_simps)
    also have "\<dots> \<le> a + max a 1"
      using quantum_le [OF pos] by simp
    also have "\<dots> \<le> 2 * a + 1" using pos by simp
    finally show ?thesis .
  qed
qed

lemma round64_0 [simp]: "round64 0 = Fin 0"
  by (simp add: round64_def quantize_def)

lemma round64_finite:
  assumes "\<bar>x\<bar> \<le> B" and "B < 2 ^ 1024 - 2 ^ 970"
  shows "\<exists>q. round64 x = Fin q \<and> \<bar>q\<bar> \<le> 2 * B + 1 \<and> (0 \<le> x \<longrightarrow> 0 \<le> q) \<and> (x \<le> 0 \<longrightarrow> q \<le> 0)"
proof -
  have q: "0 \<le> quantize \<bar>x\<bar>" "quantize \<bar>x\<bar> \<le> 2 * \<bar>x\<bar> + 1"
    using quantize_bounds [of "\<bar>x\<bar>"] by simp_all
  have "round64 x = Fin (sgn x * quantize \<bar>x\<bar>)"
    using assms by (simp add: round64_def)
  moreover have "\<bar>sgn x * quantize \<bar>x\<bar>\<bar> \<le> 2 * B + 1"
    using q assms(1) by (simp add: abs_mult abs_sgn_eq)
  moreover have "0 \<le> x \<longrightarrow> 0 \<le> sgn x * quantize \<bar>x\<bar>"
    using q by (simp add: sgn_if)
  moreover have "x \<le> 0 \<longrightarrow> sgn x * quantize \<bar>x\<bar> \<le> 0"
    using q by (auto simp: sgn_if)
  ultimately show ?thesis by blast
qed

lemma round64_sign:
  "x \<le> 0 \<Longrightarrow> round64 x = NInf \<or> (\<exists>q\<le>0. round64 x = Fin q)"
  "0 \<le> x \<Longrightarrow> round64 x = PInf \<or> (\<exists>q\<ge>0. round64 x = Fin q)"
  using quantize_bounds(1) [of "\<bar>x\<bar>"]
  by (auto simp: round64_def sgn_if)

subsection \<open>Elapsed time and the grant\<close>

lemma Sub_range: "minDuration \<le> Sub t u \<and> Sub t u \<le> maxDuration"
  by (simp add: Sub_def minDuration_def maxDuration_def)

lemma quo_Second:
  "\<bar>quo d Second\<bar> \<le> \<bar>d\<bar>" "d \<le> 0 \<Longrightarrow> quo d Second \<le> 0" "0 \<le> d \<Longrightarrow> 0 \<le> quo d Second"
proof -
  have "\<bar>d\<bar> div 1000000000 \<le> \<bar>d\<bar> div 1"
    by (rule zdiv_mono2) simp_all
  then have "\<bar>d\<bar> div 1000000000 \<le> \<bar>d\<bar>"
    by simp
  then show "\<bar>quo d Second\<bar> \<le> \<bar>d\<bar>"
    by (simp add: quo_def Second_def abs_mult abs_sgn_eq)
  show "d \<le> 0 \<Longrightarrow> quo d Second \<le> 0"
    by (simp add: quo_def Second_def sgn_if pos_imp_zdiv_nonneg_iff)
  show "0 \<le> d \<Longrightarrow> 0 \<le> quo d Second"
    by (simp add: quo_def Second_def sgn_if pos_imp_zdiv_nonneg_iff)
qed

lemma rem_Second:
  "\<bar>rem d Second\<bar> < 1000000000" "d \<le> 0 \<Longrightarrow> rem d Second \<le> 0" "0 \<le> d \<Longrightarrow> 0 \<le> rem d Second"
proof -
  have eq: "rem d Second = sgn d * (\<bar>d\<bar> mod 1000000000)"
    by (simp add: rem_def quo_def Second_def sgn_if minus_mod_eq_mult_div [symmetric] algebra_simps)
  have "0 \<le> \<bar>d\<bar> mod 1000000000" "\<bar>d\<bar> mod 1000000000 < 1000000000"
    by simp_all
  then show "\<bar>rem d Second\<bar> < 1000000000" "d \<le> 0 \<Longrightarrow> rem d Second \<le> 0"
    "0 \<le> d \<Longrightarrow> 0 \<le> rem d Second"
    unfolding eq by (simp_all add: abs_mult abs_sgn_eq sgn_if)
qed

lemma Seconds_finite:
  assumes "minDuration \<le> d" and "d \<le> maxDuration"
  shows "\<exists>q. Seconds d = Fin q \<and> (d \<le> 0 \<longrightarrow> q \<le> 0) \<and> (0 \<le> d \<longrightarrow> 0 \<le> q)"
proof -
  have d: "\<bar>d\<bar> \<le> 2 ^ 63"
    using assms by (simp add: minDuration_def maxDuration_def)
  have "\<bar>real_of_int (quo d Second)\<bar> \<le> 2 ^ 63"
  proof -
    have "\<bar>quo d Second\<bar> \<le> 2 ^ 63" using quo_Second(1) [of d] d by linarith
    then have "real_of_int \<bar>quo d Second\<bar> \<le> real_of_int (2 ^ 63)" by (simp only: of_int_le_iff)
    then show ?thesis by simp
  qed
  from round64_finite [OF this] obtain q1
    where q1: "f64_of_int (quo d Second) = Fin q1" "\<bar>q1\<bar> \<le> 2 * 2 ^ 63 + 1"
      "0 \<le> real_of_int (quo d Second) \<longrightarrow> 0 \<le> q1" "real_of_int (quo d Second) \<le> 0 \<longrightarrow> q1 \<le> 0"
    unfolding f64_of_int_def by auto
  have "\<bar>real_of_int (rem d Second)\<bar> \<le> 1000000000"
  proof -
    have "real_of_int \<bar>rem d Second\<bar> \<le> real_of_int 1000000000"
      using rem_Second(1) [of d] by (simp only: of_int_le_iff)
    then show ?thesis by simp
  qed
  from round64_finite [OF this] obtain q2
    where q2: "f64_of_int (rem d Second) = Fin q2" "\<bar>q2\<bar> \<le> 2 * 1000000000 + 1"
      "0 \<le> real_of_int (rem d Second) \<longrightarrow> 0 \<le> q2" "real_of_int (rem d Second) \<le> 0 \<longrightarrow> q2 \<le> 0"
    unfolding f64_of_int_def by auto
  have "\<bar>q2 / 1000000000\<bar> \<le> 3"
    using q2(2) by simp
  from round64_finite [OF this] obtain q3
    where q3: "round64 (q2 / 1000000000) = Fin q3" "\<bar>q3\<bar> \<le> 2 * 3 + 1"
      "0 \<le> q2 / 1000000000 \<longrightarrow> 0 \<le> q3" "q2 / 1000000000 \<le> 0 \<longrightarrow> q3 \<le> 0"
    by auto
  have "\<bar>q1 + q3\<bar> \<le> 2 * 2 ^ 63 + 8"
    using q1(2) q3(2) by simp
  from round64_finite [OF this] obtain q
    where q: "round64 (q1 + q3) = Fin q" "0 \<le> q1 + q3 \<longrightarrow> 0 \<le> q" "q1 + q3 \<le> 0 \<longrightarrow> q \<le> 0"
    by auto
  have S: "Seconds d = Fin q"
    by (simp add: Seconds_def Let_def q1(1) q2(1) q3(1) q(1))
  have neg: "q \<le> 0" if "d \<le> 0"
  proof -
    have "q1 \<le> 0" using q1(4) quo_Second(2) [OF that] by simp
    moreover have "q2 \<le> 0" using q2(4) rem_Second(2) [OF that] by simp
    then have "q3 \<le> 0" using q3(4) by (simp add: divide_nonpos_pos)
    ultimately show ?thesis using q(3) by simp
  qed
  have pos: "0 \<le> q" if "0 \<le> d"
  proof -
    have "0 \<le> q1" using q1(3) quo_Second(3) [OF that] by simp
    moreover have "0 \<le> q2" using q2(3) rem_Second(3) [OF that] by simp
    then have "0 \<le> q3" using q3(3) by simp
    ultimately show ?thesis using q(2) by simp
  qed
  show ?thesis using S neg pos by blast
qed

lemma Seconds_0: "Seconds 0 = Fin 0"
  by (simp add: Seconds_def quo_def rem_def f64_of_int_def)

lemma trunc_0 [simp]: "trunc 0 = 0"
  by (simp add: trunc_def)

lemma grant_zero_rate:
  assumes "tokenRate r = Fin 0"
  shows "grant cv r (Sub t u) = 0"
proof -
  obtain q where "Seconds (Sub t u) = Fin q"
    using Seconds_finite [of "Sub t u"] Sub_range [of t u] by blast
  then show ?thesis
    using assms by (simp add: grant_def)
qed

lemma grant_zero_elapsed:
  assumes "tokenRate r = Fin a"
  shows "grant cv r 0 = 0"
  using assms by (simp add: grant_def Seconds_0)

lemma grant_above_minus_one:
  assumes "f64_mul (tokenRate r) (Seconds d) = Fin q" and "- 1 < q" and "q \<le> 0"
  shows "grant cv r d = 0"
proof -
  have "\<lceil>q\<rceil> = 0" using assms(2,3) by (simp add: ceiling_eq_iff)
  then show ?thesis
    using assms by (auto simp: grant_def trunc_def)
qed

lemma grant_negative_saturating:
  assumes cv: "\<forall>x. f64_less x (Fin 0) \<longrightarrow> cv x = 0"
    and r: "tokenRate r = Fin a" "0 \<le> a"
    and d: "minDuration \<le> d" "d \<le> 0"
  shows "grant cv r d = 0"
proof -
  obtain q where q: "Seconds d = Fin q" "q \<le> 0"
    using Seconds_finite [of d] d by (auto simp: maxDuration_def)
  have "a * q \<le> 0" using r(2) q(2) by (simp add: mult_nonneg_nonpos)
  from round64_sign(1) [OF this] show ?thesis
  proof
    assume "round64 (a * q) = NInf"
    then show ?thesis using cv r q by (simp add: grant_def)
  next
    assume "\<exists>p\<le>0. round64 (a * q) = Fin p"
    then obtain p where p: "p \<le> 0" "round64 (a * q) = Fin p" by blast
    show ?thesis
    proof (cases "p = 0")
      case True
      then show ?thesis using r q p by (simp add: grant_def)
    next
      case False
      with p have "p < 0" by simp
      then have "f64_less (Fin p) (Fin 0)" by simp
      with cv have "cv (Fin p) = 0" by blast
      moreover have "trunc p \<le> 0" using p(1) by (simp add: trunc_def ceiling_le_zero)
      ultimately show ?thesis using r q p
        by (auto simp: grant_def)
    qed
  qed
qed

subsection \<open>Construction\<close>

lemma New_negative:
  assumes "f64_less rate (Fin 0)"
  shows "New rate burst = Inl (Error ''token rate should not be negative'')"
  using assms by (simp add: New_def validate_def)

text \<open>The cases of \<open>TestInput\<close> that do not depend on how a decimal literal is rounded.\<close>

lemma New_TestInput:
  "New (Fin 21) 32 = Inr \<lparr>tokenRate = Fin 21, burstSize = 32\<rparr>"
  "New (Fin 3689348814741910) 0 = Inr \<lparr>tokenRate = Fin 3689348814741910, burstSize = 0\<rparr>"
  "New (Fin 3689348814741911) 0 = Inl (Error ''token rate limit overflow'')"
  "New (Fin 23) 20 = Inr \<lparr>tokenRate = Fin 23, burstSize = 20\<rparr>"
  by (simp_all add: New_def validate_def MaxUint_def f64_of_uint_def f64_eval)

text \<open>
  C9 (fails on the code).  \<open>New\<close> is to return an error whenever
  \<open>tokenRate * 5000 + burstSize\<close> overflows \<open>uint\<close>.  The rate \<open>3689348814741910.5\<close> is a
  \<open>float64\<close> value, and with \<open>burstSize = 1\<close> the sum is \<open>2^64 + 885\<close>, above
  \<open>math.MaxUint\<close>; yet \<open>validate\<close> accepts it, because both of its comparisons are made
  on rounded \<open>float64\<close> values.
\<close>

theorem validate_misses_overflow:
  "round64 (7378697629483821 / 2) = Fin (7378697629483821 / 2)
   \<and> real MaxUint < 7378697629483821 / 2 * 5000 + real (unat (1 :: uint))
   \<and> New (Fin (7378697629483821 / 2)) 1
       = Inr \<lparr>tokenRate = Fin (7378697629483821 / 2), burstSize = 1\<rparr>"
  by (simp add: New_def validate_def MaxUint_def f64_of_uint_def f64_eval)

subsection \<open>The points of a call, step by step\<close>

lemma iteration_points: "iteration cv r k retry = Now (at_Load cv r k retry)"
  unfolding iteration_def at_Load_def at_LoadOrStore_def ..

lemma update_points:
  "update cv r k retry val =
     Now (\<lambda>t. if 0 < tokens (refill cv r val t)
              then at_CompareAndSwap k retry val (consume (refill cv r val t) t)
              else Ret False)"
  by (simp add: update_def at_CompareAndSwap_def Let_def fun_eq_iff)

lemma loop_max: "loop cv r k maxCASRetries = iteration cv r k (loop cv r k 99)"
proof -
  have "maxCASRetries = Suc 99"
    by (simp add: maxCASRetries_def)
  show ?thesis
    unfolding \<open>maxCASRetries = Suc 99\<close> by (simp only: loop.simps)
qed

lemma Allow_iteration:
  "burstSize r \<noteq> 0 \<Longrightarrow> Allow cv r k = iteration cv r k (loop cv r k 99)"
  by (simp add: Allow_def loop_max)

lemma Allow_points:
  "burstSize r \<noteq> 0 \<Longrightarrow> Allow cv r k = Now (at_Load cv r k (loop cv r k 99))"
  by (simp add: Allow_iteration iteration_points)

lemma step_at_Load:
  "step st t' (at_Load cv r k retry t) =
     ((case st k of None \<Rightarrow> at_LoadOrStore cv r k retry t | Some val \<Rightarrow> update cv r k retry val), st)"
  by (simp add: at_Load_def map_Load_def)

lemma step_at_LoadOrStore:
  "step st t' (at_LoadOrStore cv r k retry t) =
     (case st k of None \<Rightarrow> (Ret True, st(k \<mapsto> fresh r t))
      | Some actual \<Rightarrow> (update cv r k retry actual, st))"
  by (simp add: at_LoadOrStore_def map_LoadOrStore_def split: option.split)

lemma step_update:
  "step st t (update cv r k retry val) =
     ((if 0 < tokens (refill cv r val t)
       then at_CompareAndSwap k retry val (consume (refill cv r val t) t)
       else Ret False), st)"
  by (simp add: update_points)

lemma step_at_CompareAndSwap:
  "step st t (at_CompareAndSwap k retry val new) =
     (if st k = Some val then (Ret True, st(k \<mapsto> new)) else (retry, st))"
  by (simp add: at_CompareAndSwap_def map_CompareAndSwap_def)

lemma exec_update:
  "exec (update cv r k retry val) clk w =
     (let t = clk (ticks w); buck = refill cv r val t
      in if 0 < tokens buck
         then (if m w k = Some val
               then (True, w\<lparr>ticks := Suc (ticks w), m := (m w)(k \<mapsto> consume buck t)\<rparr>)
               else exec retry clk (w\<lparr>ticks := Suc (ticks w)\<rparr>))
         else (False, w\<lparr>ticks := Suc (ticks w)\<rparr>))"
  by (simp add: update_def Let_def map_CompareAndSwap_def)

lemma exec_iteration:
  "exec (iteration cv r k retry) clk w =
     (case m w k of
        None \<Rightarrow> (True, w\<lparr>ticks := Suc (ticks w), m := (m w)(k \<mapsto> fresh r (clk (ticks w)))\<rparr>)
      | Some val \<Rightarrow> exec (update cv r k retry val) clk (w\<lparr>ticks := Suc (ticks w)\<rparr>))"
  by (simp add: iteration_def map_Load_def map_LoadOrStore_def split: option.split)

lemma exec_at_Load:
  "exec (at_Load cv r k retry t) clk w =
     (case m w k of
        None \<Rightarrow> (True, w\<lparr>m := (m w)(k \<mapsto> fresh r t)\<rparr>)
      | Some val \<Rightarrow> exec (update cv r k retry val) clk w)"
  by (simp add: at_Load_def at_LoadOrStore_def map_Load_def map_LoadOrStore_def split: option.split)


subsection \<open>Refill\<close>

lemma refill_no_grant:
  assumes "grant cv r (Sub t (lastRefill buck)) = 0" and "tokens buck \<le> burstSize r"
  shows "refill cv r buck t = buck"
  using assms by (simp add: refill_def Let_def min_def)

lemma refill_fields:
  "tokens (refill cv r buck t) = min (burstSize r) (grant cv r (Sub t (lastRefill buck)) + tokens buck)
   \<and> lastRefill (refill cv r buck t) =
       (if min (burstSize r) (grant cv r (Sub t (lastRefill buck)) + tokens buck) = tokens buck
        then lastRefill buck else t)
   \<and> lastActivity (refill cv r buck t) = lastActivity buck"
  by (simp add: refill_def Let_def)

lemma Sub_exact:
  "minDuration \<le> t - u \<Longrightarrow> t - u \<le> maxDuration \<Longrightarrow> Sub t u = t - u"
  by (simp add: Sub_def)

lemma grant_in_range:
  assumes "tokenRate r = Fin a" and "Seconds d = Fin s" and "round64 (a * s) = Fin p"
    and "0 \<le> p" and "p < 2 ^ 64"
  shows "grant cv r d = word_of_int \<lfloor>p\<rfloor>" and "unat (grant cv r d) = nat \<lfloor>p\<rfloor>"
proof -
  have f: "0 \<le> \<lfloor>p\<rfloor>" "\<lfloor>p\<rfloor> < 2 ^ 64"
    using assms(4,5) by (simp_all add: floor_less_iff)
  show g: "grant cv r d = word_of_int \<lfloor>p\<rfloor>"
    using assms f by (simp add: grant_def trunc_def)
  have "unat (word_of_int \<lfloor>p\<rfloor> :: uint) = nat \<lfloor>p\<rfloor>"
    using f by (simp add: unat_eq_nat_uint uint_word_of_int take_bit_int_eq_self)
  then show "unat (grant cv r d) = nat \<lfloor>p\<rfloor>"
    by (simp only: g)
qed


text \<open>
  The rate \<open>5.0/60.0\<close> (five tokens a minute) as a \<open>float64\<close>, twelve seconds, and their
  \<open>float64\<close> product: the rate is a little below \<open>1/12\<close>, and the product is rounded up
  to \<open>1\<close>.
\<close>

lemma five_sixtieths:
  "f64_div (Fin 5) (Fin 60) = Fin (6004799503160661 / 72057594037927936)"
  "Seconds 12000000000 = Fin 12"
  "round64 (6004799503160661 / 72057594037927936 * 12) = Fin 1"
  "round64 (18014398509481983 / 18014398509481984) = Fin 1"
  "round64 (1 / 12) = Fin (6004799503160661 / 72057594037927936)"
  by (simp_all add: grant_eval)


text \<open>
  C5 (fails on the code).  The claim takes the new count to be
  \<open>min(burstSize, oldTokens + floor(tokenRate * elapsedSeconds))\<close>.  At the rate
  \<open>5.0/60.0\<close>, with an empty bucket refilled twelve seconds ago, that count is \<open>0\<close>, the
  old count, so \<open>lastRefill\<close> would be kept; the code grants one token and moves
  \<open>lastRefill\<close> to \<open>now\<close>.
\<close>

theorem refill_count_differs_from_spec:
  "f64_div (Fin 5) (Fin 60) = Fin (6004799503160661 / 72057594037927936)
   \<and> spec_candidateTokens (6004799503160661 / 72057594037927936) 10 0 12 = 0
   \<and> tokens (refill (\<lambda>x. 0) \<lparr>tokenRate = Fin (6004799503160661 / 72057594037927936), burstSize = 10\<rparr>
        \<lparr>tokens = 0, lastRefill = 3000000000, lastActivity = 3000000000\<rparr> 15000000000) = 1
   \<and> lastRefill (refill (\<lambda>x. 0) \<lparr>tokenRate = Fin (6004799503160661 / 72057594037927936), burstSize = 10\<rparr>
        \<lparr>tokens = 0, lastRefill = 3000000000, lastActivity = 3000000000\<rparr> 15000000000) = 15000000000"
proof -
  have g: "grant (\<lambda>x. 0) \<lparr>tokenRate = Fin (6004799503160661 / 72057594037927936), burstSize = 10\<rparr>
      (Sub 15000000000 3000000000) = 1"
    by (simp add: grant_def Sub_def minDuration_def maxDuration_def five_sixtieths trunc_def)
  show ?thesis
    by (simp add: five_sixtieths spec_candidateTokens_def refill_def g Let_def)
qed


text \<open>
  C5, amended.  The count is computed in \<open>float64\<close> and \<open>uint\<close>: \<open>s\<close> is
  \<open>Seconds\<close> of the elapsed time \<open>t - lastRefill\<close>, \<open>p\<close> is the product of the rate and
  \<open>s\<close> rounded to \<open>float64\<close>.  When the elapsed time is an \<open>int64\<close> duration, \<open>p\<close> is
  not negative and \<open>oldTokens + p\<close> stays below \<open>2^64\<close>, the new count is
  \<open>min(burstSize, oldTokens + floor p)\<close>; \<open>lastRefill\<close> becomes \<open>now\<close> when this differs
  from the old count and is kept when it does not; \<open>lastActivity\<close> is kept; and when no
  whole token is granted (\<open>floor p = 0\<close>) to a bucket within its capacity, the bucket is
  unchanged.
\<close>

theorem refill_count_and_time:
  assumes "tokenRate r = Fin a"
    and "minDuration \<le> t - lastRefill buck" and "t - lastRefill buck \<le> maxDuration"
    and "Seconds (t - lastRefill buck) = Fin s"
    and "round64 (a * s) = Fin p"
    and "0 \<le> p" and "real (unat (tokens buck)) + p < 2 ^ 64"
  shows "unat (tokens (refill cv r buck t))
           = min (unat (burstSize r)) (unat (tokens buck) + nat \<lfloor>p\<rfloor>)
    \<and> lastRefill (refill cv r buck t)
           = (if min (unat (burstSize r)) (unat (tokens buck) + nat \<lfloor>p\<rfloor>) = unat (tokens buck)
              then lastRefill buck else t)
    \<and> lastActivity (refill cv r buck t) = lastActivity buck
    \<and> (\<lfloor>p\<rfloor> = 0 \<and> tokens buck \<le> burstSize r \<longrightarrow> refill cv r buck t = buck)"
proof -
  have p64: "p < 2 ^ 64" using assms(7) by (smt (verit) of_nat_0_le_iff)
  have S: "Sub t (lastRefill buck) = t - lastRefill buck"
    using assms(2,3) by (rule Sub_exact)
  have g: "unat (grant cv r (t - lastRefill buck)) = nat \<lfloor>p\<rfloor>"
    using assms(1,4,5,6) p64 by (rule grant_in_range(2))
  have "real (nat \<lfloor>p\<rfloor>) \<le> p" using assms(6) by simp
  then have "real (nat \<lfloor>p\<rfloor> + unat (tokens buck)) < 2 ^ 64"
    using assms(7) by simp
  then have "nat \<lfloor>p\<rfloor> + unat (tokens buck) < 2 ^ 64"
    by (metis of_nat_less_iff of_nat_numeral of_nat_power)
  then have sum: "unat (grant cv r (t - lastRefill buck) + tokens buck)
      = unat (tokens buck) + nat \<lfloor>p\<rfloor>"
    using g by (simp add: unat_add_lem [THEN iffD1])
  define new where "new = min (burstSize r) (grant cv r (t - lastRefill buck) + tokens buck)"
  have new: "unat new = min (unat (burstSize r)) (unat (tokens buck) + nat \<lfloor>p\<rfloor>)"
    unfolding new_def using sum by (simp add: min_def word_le_nat_alt)
  have eq: "(tokens buck = new) = (min (unat (burstSize r)) (unat (tokens buck) + nat \<lfloor>p\<rfloor>) = unat (tokens buck))"
    using new by (metis unsigned_word_eqI)
  have R: "refill cv r buck t = (if tokens buck \<noteq> new then buck\<lparr>tokens := new, lastRefill := t\<rparr> else buck)"
    by (simp add: refill_def Let_def S new_def)
  have "\<lfloor>p\<rfloor> = 0 \<and> tokens buck \<le> burstSize r \<longrightarrow> tokens buck = new"
    unfolding eq by (auto simp: word_le_nat_alt)
  then show ?thesis
    using new eq by (auto simp: R)
qed



theorem refill_count_and_time_witness:
  "tokenRate \<lparr>tokenRate = Fin (6004799503160661 / 72057594037927936), burstSize = 10\<rparr>
     = Fin (6004799503160661 / 72057594037927936)
   \<and> minDuration \<le> 15000000000 - lastRefill \<lparr>tokens = 2, lastRefill = 3000000000, lastActivity = 1\<rparr>
   \<and> 15000000000 - lastRefill \<lparr>tokens = 2, lastRefill = 3000000000, lastActivity = 1\<rparr> \<le> maxDuration
   \<and> Seconds (15000000000 - lastRefill \<lparr>tokens = 2, lastRefill = 3000000000, lastActivity = 1\<rparr>) = Fin 12
   \<and> round64 (6004799503160661 / 72057594037927936 * 12) = Fin 1
   \<and> unat (tokens (refill (\<lambda>x. 0) \<lparr>tokenRate = Fin (6004799503160661 / 72057594037927936), burstSize = 10\<rparr>
        \<lparr>tokens = 2, lastRefill = 3000000000, lastActivity = 1\<rparr> 15000000000)) = 3
   \<and> lastRefill (refill (\<lambda>x. 0) \<lparr>tokenRate = Fin (6004799503160661 / 72057594037927936), burstSize = 10\<rparr>
        \<lparr>tokens = 2, lastRefill = 3000000000, lastActivity = 1\<rparr> 15000000000) = 15000000000
   \<and> lastActivity (refill (\<lambda>x. 0) \<lparr>tokenRate = Fin (6004799503160661 / 72057594037927936), burstSize = 10\<rparr>
        \<lparr>tokens = 2, lastRefill = 3000000000, lastActivity = 1\<rparr> 15000000000) = 1"
  using refill_count_and_time [where r = "\<lparr>tokenRate = Fin (6004799503160661 / 72057594037927936), burstSize = 10\<rparr>"
      and a = "6004799503160661 / 72057594037927936" and t = 15000000000
      and buck = "\<lparr>tokens = 2, lastRefill = 3000000000, lastActivity = 1\<rparr>" and s = 12 and p = 1
      and cv = "\<lambda>x. 0"]
  by (simp add: five_sixtieths minDuration_def maxDuration_def)

subsection \<open>Allow\<close>

text \<open>
  C7.  With \<open>burstSize = 0\<close>, \<open>Allow\<close> is the program that returns \<open>false\<close> at once: it
  has no action on the map at all, and running it leaves the state as it was.
\<close>

theorem zero_burst_denies:
  assumes "burstSize r = 0"
  shows "Allow cv r k = Ret False \<and> exec (Allow cv r k) clk w = (False, w)"
  using assms by (simp add: Allow_def)

theorem zero_burst_denies_witness:
  "burstSize \<lparr>tokenRate = Fin 10, burstSize = 0\<rparr> = 0
   \<and> Allow (\<lambda>x. 0) \<lparr>tokenRate = Fin 10, burstSize = 0\<rparr> ''any-key'' = Ret False
   \<and> exec (Allow (\<lambda>x. 0) \<lparr>tokenRate = Fin 10, burstSize = 0\<rparr> ''any-key'') (\<lambda>n. 0)
        \<lparr>m = Map.empty, ticks = 0\<rparr> = (False, \<lparr>m = Map.empty, ticks = 0\<rparr>)"
  using zero_burst_denies [of "\<lparr>tokenRate = Fin 10, burstSize = 0\<rparr>" "\<lambda>x. 0" "''any-key''"
      "\<lambda>n. 0" "\<lparr>m = Map.empty, ticks = 0\<rparr>"]
  by simp

text \<open>
  C6.  A call with \<open>burstSize \<ge> 1\<close> reads the clock (\<open>t\<close>) and loads the key.  When the
  key is absent it goes on to \<open>LoadOrStore\<close> the bucket with \<open>burstSize - 1\<close> tokens and
  both times \<open>t\<close>; if the key is still absent then, the bucket is stored and the call
  returns \<open>true\<close>.  If another goroutine has stored \<open>val\<close> in between, nothing is written
  and the call continues at \<open>update\<close> with \<open>val\<close> as its snapshot, exactly where a \<open>Load\<close>
  that finds \<open>val\<close> continues.  Run on its own, a call for an absent key stores the fresh
  bucket and returns \<open>true\<close>.
\<close>

theorem first_request_creates_bucket:
  assumes "burstSize r \<noteq> 0"
  shows "step st t (Allow cv r k) = (at_Load cv r k (loop cv r k 99) t, st)
    \<and> (st k = None \<longrightarrow>
         step st t' (at_Load cv r k (loop cv r k 99) t)
           = (at_LoadOrStore cv r k (loop cv r k 99) t, st)
         \<and> step st t' (at_LoadOrStore cv r k (loop cv r k 99) t)
           = (Ret True, st(k \<mapsto> \<lparr>tokens = burstSize r - 1, lastRefill = t, lastActivity = t\<rparr>)))
    \<and> (st' k = Some val \<longrightarrow>
         step st' t' (at_LoadOrStore cv r k (loop cv r k 99) t)
           = (update cv r k (loop cv r k 99) val, st')
         \<and> step st' t' (at_Load cv r k (loop cv r k 99) t)
           = (update cv r k (loop cv r k 99) val, st'))
    \<and> (m w k = None \<longrightarrow>
         exec (Allow cv r k) clk w
           = (True, w\<lparr>ticks := Suc (ticks w),
                      m := (m w)(k \<mapsto> \<lparr>tokens = burstSize r - 1, lastRefill = clk (ticks w),
                                        lastActivity = clk (ticks w)\<rparr>)\<rparr>))"
  using assms
  by (simp add: Allow_points step_at_Load step_at_LoadOrStore exec_at_Load fresh_def)


theorem first_request_creates_bucket_witness:
  "burstSize \<lparr>tokenRate = Fin 10, burstSize = 10\<rparr> \<noteq> 0
   \<and> (Map.empty :: store) ''k'' = None
   \<and> step Map.empty 8 (at_LoadOrStore (\<lambda>x. 0) \<lparr>tokenRate = Fin 10, burstSize = 10\<rparr> ''k''
        (loop (\<lambda>x. 0) \<lparr>tokenRate = Fin 10, burstSize = 10\<rparr> ''k'' 99) 7)
       = (Ret True, [''k'' \<mapsto> \<lparr>tokens = 9, lastRefill = 7, lastActivity = 7\<rparr>])
   \<and> [''k'' \<mapsto> \<lparr>tokens = 3, lastRefill = 1, lastActivity = 2\<rparr>] ''k''
       = Some \<lparr>tokens = 3, lastRefill = 1, lastActivity = 2\<rparr>
   \<and> step [''k'' \<mapsto> \<lparr>tokens = 3, lastRefill = 1, lastActivity = 2\<rparr>] 8
        (at_LoadOrStore (\<lambda>x. 0) \<lparr>tokenRate = Fin 10, burstSize = 10\<rparr> ''k''
          (loop (\<lambda>x. 0) \<lparr>tokenRate = Fin 10, burstSize = 10\<rparr> ''k'' 99) 7)
       = (update (\<lambda>x. 0) \<lparr>tokenRate = Fin 10, burstSize = 10\<rparr> ''k''
            (loop (\<lambda>x. 0) \<lparr>tokenRate = Fin 10, burstSize = 10\<rparr> ''k'' 99)
            \<lparr>tokens = 3, lastRefill = 1, lastActivity = 2\<rparr>,
          [''k'' \<mapsto> \<lparr>tokens = 3, lastRefill = 1, lastActivity = 2\<rparr>])
   \<and> exec (Allow (\<lambda>x. 0) \<lparr>tokenRate = Fin 10, burstSize = 10\<rparr> ''k'') (\<lambda>n. 7)
        \<lparr>m = Map.empty, ticks = 0\<rparr>
       = (True, \<lparr>m = [''k'' \<mapsto> \<lparr>tokens = 9, lastRefill = 7, lastActivity = 7\<rparr>], ticks = 1\<rparr>)"
  using first_request_creates_bucket [where r = "\<lparr>tokenRate = Fin 10, burstSize = 10\<rparr>"
      and st = Map.empty and k = "''k''" and t = 7 and t' = 8 and cv = "\<lambda>x. 0"
      and st' = "[''k'' \<mapsto> \<lparr>tokens = 3, lastRefill = 1, lastActivity = 2\<rparr>]"
      and val = "\<lparr>tokens = 3, lastRefill = 1, lastActivity = 2\<rparr>"
      and w = "\<lparr>m = Map.empty, ticks = 0\<rparr>" and clk = "\<lambda>n. 7"]
  by simp

lemma exec_Allow_False:
  assumes "exec (Allow cv r k) clk w = (False, w')"
  shows "m w' = m w"
proof (cases "burstSize r = 0")
  case True
  with assms show ?thesis by (simp add: Allow_def)
next
  case False
  then have A: "Allow cv r k = iteration cv r k (loop cv r k 99)"
    by (rule Allow_iteration)
  show ?thesis
    using assms unfolding A
    by (auto simp: exec_iteration exec_update Let_def split: option.splits if_splits)
qed


subsection \<open>Negative and zero elapsed time\<close>

lemma Sub_nonpos: "t \<le> u \<Longrightarrow> Sub t u \<le> 0"
  by (simp add: Sub_def minDuration_def maxDuration_def)


text \<open>
  C4 (fails on the code).  The clock runs backwards by five seconds, at one token a
  second.  The elapsed time is not clamped: the product \<open>-5.0\<close> is converted to \<open>uint\<close>,
  which the language leaves to the platform.  Where the conversion keeps the low 64 bits,
  the grant is \<open>2^64 - 5\<close> and the empty bucket is filled to its capacity.
\<close>

theorem negative_elapsed_not_clamped:
  "Sub 0 5000000000 = - 5000000000
   \<and> grant wrapping \<lparr>tokenRate = Fin 1, burstSize = 10\<rparr> (Sub 0 5000000000) = 18446744073709551611
   \<and> refill wrapping \<lparr>tokenRate = Fin 1, burstSize = 10\<rparr>
        \<lparr>tokens = 0, lastRefill = 5000000000, lastActivity = 5000000000\<rparr> 0
      = \<lparr>tokens = 10, lastRefill = 0, lastActivity = 5000000000\<rparr>"
proof -
  have g: "grant wrapping \<lparr>tokenRate = Fin 1, burstSize = 10\<rparr> (Sub 0 5000000000) = 18446744073709551611"
    by (simp add: grant_eval wrapping_def)
  show ?thesis
    by (simp add: g refill_def) (simp add: Sub_def minDuration_def maxDuration_def)
qed


text \<open>
  C4, amended.  A zero elapsed time grants nothing at any finite rate.  A negative
  elapsed time grants nothing when the \<open>float64\<close> product of the rate and the seconds is
  above \<open>-1\<close> (it truncates to \<open>0\<close>), and, at a rate that is not negative, on a platform
  whose conversion gives \<open>0\<close> for every negative value.  In each of these cases a bucket
  within its capacity is left as it was.
\<close>

theorem elapsed_zero_or_negative:
  "(tokenRate r = Fin a \<longrightarrow> tokens buck \<le> burstSize r \<longrightarrow>
      grant cv r (Sub (lastRefill buck) (lastRefill buck)) = 0
      \<and> refill cv r buck (lastRefill buck) = buck)
   \<and> (f64_mul (tokenRate r') (Seconds (Sub t' (lastRefill buck'))) = Fin q \<longrightarrow> - 1 < q \<longrightarrow> q \<le> 0 \<longrightarrow>
      tokens buck' \<le> burstSize r' \<longrightarrow>
      grant cv r' (Sub t' (lastRefill buck')) = 0 \<and> refill cv r' buck' t' = buck')
   \<and> ((\<forall>x. f64_less x (Fin 0) \<longrightarrow> cv' x = 0) \<longrightarrow> tokenRate r'' = Fin b \<longrightarrow> 0 \<le> b \<longrightarrow>
      t'' \<le> lastRefill buck'' \<longrightarrow> tokens buck'' \<le> burstSize r'' \<longrightarrow>
      grant cv' r'' (Sub t'' (lastRefill buck'')) = 0 \<and> refill cv' r'' buck'' t'' = buck'')"
proof (intro conjI impI)
  assume a: "tokenRate r = Fin a" "tokens buck \<le> burstSize r"
  show g: "grant cv r (Sub (lastRefill buck) (lastRefill buck)) = 0"
    using grant_zero_elapsed [OF a(1)] by (simp add: Sub_def minDuration_def maxDuration_def)
  show "refill cv r buck (lastRefill buck) = buck"
    using g a(2) by (rule refill_no_grant)
next
  assume a: "f64_mul (tokenRate r') (Seconds (Sub t' (lastRefill buck'))) = Fin q" "- 1 < q" "q \<le> 0"
    "tokens buck' \<le> burstSize r'"
  show g: "grant cv r' (Sub t' (lastRefill buck')) = 0"
    using a(1,2,3) by (rule grant_above_minus_one)
  show "refill cv r' buck' t' = buck'"
    using g a(4) by (rule refill_no_grant)
next
  assume a: "\<forall>x. f64_less x (Fin 0) \<longrightarrow> cv' x = 0" "tokenRate r'' = Fin b" "0 \<le> b"
    "t'' \<le> lastRefill buck''" "tokens buck'' \<le> burstSize r''"
  show g: "grant cv' r'' (Sub t'' (lastRefill buck'')) = 0"
    using a(1,2,3) Sub_range [of t'' "lastRefill buck''"] Sub_nonpos [OF a(4)]
    by (intro grant_negative_saturating) simp_all
  show "refill cv' r'' buck'' t'' = buck''"
    using g a(5) by (rule refill_no_grant)
qed



theorem elapsed_zero_or_negative_witness:
  "tokenRate \<lparr>tokenRate = Fin 10, burstSize = 10\<rparr> = Fin 10
   \<and> tokens \<lparr>tokens = 3, lastRefill = 7, lastActivity = 7\<rparr> \<le> burstSize \<lparr>tokenRate = Fin 10, burstSize = 10\<rparr>
   \<and> refill wrapping \<lparr>tokenRate = Fin 10, burstSize = 10\<rparr> \<lparr>tokens = 3, lastRefill = 7, lastActivity = 7\<rparr> 7
       = \<lparr>tokens = 3, lastRefill = 7, lastActivity = 7\<rparr>
   \<and> f64_mul (tokenRate \<lparr>tokenRate = Fin 1, burstSize = 10\<rparr>)
        (Seconds (Sub 0 (lastRefill \<lparr>tokens = 3, lastRefill = 500000000, lastActivity = 7\<rparr>)))
       = Fin (- (1 / 2))
   \<and> refill wrapping \<lparr>tokenRate = Fin 1, burstSize = 10\<rparr>
        \<lparr>tokens = 3, lastRefill = 500000000, lastActivity = 7\<rparr> 0
       = \<lparr>tokens = 3, lastRefill = 500000000, lastActivity = 7\<rparr>
   \<and> (0 :: time) \<le> lastRefill \<lparr>tokens = 0, lastRefill = 5000000000, lastActivity = 5000000000\<rparr>
   \<and> refill (\<lambda>x. 0) \<lparr>tokenRate = Fin 1, burstSize = 10\<rparr>
        \<lparr>tokens = 0, lastRefill = 5000000000, lastActivity = 5000000000\<rparr> 0
       = \<lparr>tokens = 0, lastRefill = 5000000000, lastActivity = 5000000000\<rparr>"
proof -
  have s: "Seconds (Sub 0 500000000) = Fin (- (1 / 2))"
    by (simp add: grant_eval)
  have p: "round64 (- (1 / 2)) = Fin (- (1 / 2))"
    by (simp add: f64_eval)
  show ?thesis
    using elapsed_zero_or_negative [where r = "\<lparr>tokenRate = Fin 10, burstSize = 10\<rparr>" and a = 10
        and buck = "\<lparr>tokens = 3, lastRefill = 7, lastActivity = 7\<rparr>" and cv = wrapping
        and r' = "\<lparr>tokenRate = Fin 1, burstSize = 10\<rparr>" and t' = 0 and q = "- (1 / 2)"
        and buck' = "\<lparr>tokens = 3, lastRefill = 500000000, lastActivity = 7\<rparr>"
        and cv' = "\<lambda>x. 0" and r'' = "\<lparr>tokenRate = Fin 1, burstSize = 10\<rparr>" and b = 1 and t'' = 0
        and buck'' = "\<lparr>tokens = 0, lastRefill = 5000000000, lastActivity = 5000000000\<rparr>"]
    by (simp add: s p)
qed

subsection \<open>A limiter with token rate zero\<close>

lemma f64_of_uint_finite: "\<exists>q. f64_of_uint x = Fin q \<and> 0 \<le> q \<and> q \<le> 2 * 2 ^ 64 + 1"
proof -
  define n where "n = unat x"
  have "n < 2 ^ 64"
    unfolding n_def using unsigned_less [of x, where 'a = nat] by simp
  then have "real n < real (2 ^ 64)"
    by (simp only: of_nat_less_iff)
  then have "\<bar>real n\<bar> \<le> 2 ^ 64"
    by simp
  from round64_finite [OF this] obtain q
    where "round64 (real n) = Fin q" "\<bar>q\<bar> \<le> 2 * 2 ^ 64 + 1" "0 \<le> q"
    by auto
  then show ?thesis
    unfolding f64_of_uint_def n_def [symmetric] by auto
qed

lemma New_zero_rate: "New (Fin 0) N = Inr \<lparr>tokenRate = Fin 0, burstSize = N\<rparr>"
proof -
  obtain q where q: "f64_of_uint (word_of_nat MaxUint - N) = Fin q" "0 \<le> q" "q \<le> 2 * 2 ^ 64 + 1"
    using f64_of_uint_finite by blast
  have "\<bar>q / 5000\<bar> \<le> 2 * 2 ^ 64 + 1"
    using q(2,3) by simp
  from round64_finite [OF this] obtain q'
    where q': "round64 (q / 5000) = Fin q'" "0 \<le> q'"
    using q(2) by auto
  have M: "round64 (real MaxUint) = Fin 18446744073709551616"
    by (simp add: MaxUint_def f64_eval)
  show ?thesis
    using q q' by (simp add: New_def validate_def M Let_def)
qed

lemma exec_Allow_zero_rate:
  assumes r: "tokenRate r = Fin 0" "burstSize r \<noteq> 0"
    and b: "m w k = Some b" "tokens b \<le> burstSize r"
  shows "exec (Allow cv r k) clk w =
     (if tokens b = 0 then (False, w\<lparr>ticks := Suc (Suc (ticks w))\<rparr>)
      else (True, w\<lparr>ticks := Suc (Suc (ticks w)),
                    m := (m w)(k \<mapsto> b\<lparr>lastActivity := clk (Suc (ticks w)),
                                        tokens := tokens b - 1\<rparr>)\<rparr>))"
proof -
  have "refill cv r b t = b" for t
    using b(2) by (intro refill_no_grant grant_zero_rate r(1))
  then show ?thesis
    using r(2) b(1)
    by (simp add: Allow_iteration exec_iteration exec_update Let_def consume_def word_greater_zero_iff)
qed

lemma calls_drain:
  assumes r: "tokenRate r = Fin 0" "burstSize r \<noteq> 0"
  shows "m w k = Some b \<Longrightarrow> tokens b \<le> burstSize r \<Longrightarrow>
     fst (calls cv r k clk (unat (tokens b) + j) w) = replicate (unat (tokens b)) True @ replicate j False"
proof (induction "unat (tokens b)" arbitrary: w b)
  case 0
  then have z: "tokens b = 0" by (simp add: unat_eq_0)
  have "fst (calls cv r k clk j w) = replicate j False" if "m w k = Some b" for w
    using that
  proof (induction j arbitrary: w)
    case 0
    show ?case by simp
  next
    case (Suc j)
    have e: "exec (Allow cv r k) clk w = (False, w\<lparr>ticks := Suc (Suc (ticks w))\<rparr>)"
      using exec_Allow_zero_rate [OF r Suc.prems, of cv clk] "0.prems"(2) z by simp
    have "fst (calls cv r k clk j (w\<lparr>ticks := Suc (Suc (ticks w))\<rparr>)) = replicate j False"
      by (rule Suc.IH) (simp add: Suc.prems)
    then show ?case
      by (simp add: e split_beta)
  qed
  with "0.prems"(1) z show ?case by simp
next
  case (Suc n)
  then have nz: "tokens b \<noteq> 0" by auto
  let ?b = "b\<lparr>lastActivity := clk (Suc (ticks w)), tokens := tokens b - 1\<rparr>"
  let ?w = "w\<lparr>ticks := Suc (Suc (ticks w)), m := (m w)(k \<mapsto> ?b)\<rparr>"
  have e: "exec (Allow cv r k) clk w = (True, ?w)"
    using exec_Allow_zero_rate [OF r Suc.prems(1,2), of cv clk] nz by simp
  have u: "unat (tokens ?b) = n"
    using Suc.hyps(2) nz by (simp add: unat_minus_one)
  have le: "tokens ?b \<le> burstSize r"
    using Suc.prems(2) nz by (simp add: word_le_nat_alt unat_minus_one)
  have "fst (calls cv r k clk (unat (tokens ?b) + j) ?w)
      = replicate (unat (tokens ?b)) True @ replicate j False"
    using u le by (intro Suc.hyps(1)) simp_all
  then have "fst (calls cv r k clk (n + j) ?w) = replicate n True @ replicate j False"
    by (simp only: u)
  then show ?case
    using Suc.hyps(2) [symmetric] by (simp add: e split_beta)
qed


text \<open>
  C1.  \<open>New(0, N)\<close> succeeds.  On the limiter it returns, for a key that is not in the
  map, any \<open>N + j\<close> calls made one after the other (at any clock readings, nothing else
  touching the map) return \<open>true\<close> for the first \<open>N\<close> and \<open>false\<close> for the other \<open>j\<close>.
\<close>

theorem zero_rate_burst_then_deny:
  assumes "N \<noteq> 0" and "m w k = None"
  shows "New (Fin 0) N = Inr \<lparr>tokenRate = Fin 0, burstSize = N\<rparr>
    \<and> fst (calls cv \<lparr>tokenRate = Fin 0, burstSize = N\<rparr> k clk (unat N + j) w)
        = replicate (unat N) True @ replicate j False"
proof -
  let ?r = "\<lparr>tokenRate = Fin 0, burstSize = N\<rparr>"
  let ?w = "w\<lparr>ticks := Suc (ticks w), m := (m w)(k \<mapsto> fresh ?r (clk (ticks w)))\<rparr>"
  have nz: "burstSize ?r \<noteq> 0" using assms(1) by simp
  have e: "exec (Allow cv ?r k) clk w = (True, ?w)"
    using assms(2) nz by (simp add: Allow_iteration exec_iteration)
  have t: "unat (tokens (fresh ?r (clk (ticks w)))) = unat N - 1"
    using assms(1) by (simp add: fresh_def unat_minus_one)
  have "fst (calls cv ?r k clk (unat (tokens (fresh ?r (clk (ticks w)))) + j) ?w)
      = replicate (unat (tokens (fresh ?r (clk (ticks w))))) True @ replicate j False"
    by (rule calls_drain) (simp_all add: fresh_def word_le_nat_alt unat_minus_one assms(1))
  then have rest: "fst (calls cv ?r k clk (unat N - 1 + j) ?w)
      = replicate (unat N - 1) True @ replicate j False"
    by (simp only: t)
  have pos: "0 < unat N" using assms(1) by (simp add: unat_gt_0)
  then obtain c where c: "unat N = Suc c" by (cases "unat N") simp_all
  show ?thesis
    using rest by (simp add: New_zero_rate c e split_beta)
qed



theorem zero_rate_burst_then_deny_witness:
  "(3 :: uint) \<noteq> 0 \<and> m \<lparr>m = Map.empty, ticks = 0\<rparr> ''k'' = None
   \<and> New (Fin 0) 3 = Inr \<lparr>tokenRate = Fin 0, burstSize = 3\<rparr>
   \<and> fst (calls (\<lambda>x. 0) \<lparr>tokenRate = Fin 0, burstSize = 3\<rparr> ''k'' (\<lambda>n. int n * 7000000000) 5
        \<lparr>m = Map.empty, ticks = 0\<rparr>) = [True, True, True, False, False]"
proof -
  have h: "(3 :: uint) \<noteq> 0" "m \<lparr>m = Map.empty, ticks = 0\<rparr> ''k'' = None"
    by simp_all
  have u: "unat (3 :: uint) + 2 = 5"
    by simp
  have "replicate 3 True @ replicate 2 False = [True, True, True, False, False]"
    by (simp add: numeral_3_eq_3 numeral_2_eq_2)
  moreover have "unat (3 :: uint) = 3"
    by simp
  ultimately have rep:
    "replicate (unat (3 :: uint)) True @ replicate 2 False = [True, True, True, False, False]"
    by (simp only:)
  show ?thesis
    using h zero_rate_burst_then_deny [OF h, where cv = "\<lambda>x. 0" and clk = "\<lambda>n. int n * 7000000000"
        and j = 2]
    unfolding u rep by simp
qed


subsection \<open>A call among other goroutines\<close>

lemma loop_numeral:
  "loop cv r k (numeral n) = iteration cv r k (loop cv r k (pred_numeral n))"
  by (simp add: numeral_eq_Suc)

lemma step_iteration: "step st t (iteration cv r k retry) = (at_Load cv r k retry t, st)"
  by (simp add: iteration_points)

lemma call_state_Allow: "call_state cv r k (Allow cv r k)"
  by (simp add: Allow_def call_state.returned call_state.head)

lemma call_state_step:
  assumes "call_state cv r k p"
  shows "call_state cv r k (fst (step st t p))"
    and "snd (step st t p) \<noteq> st \<Longrightarrow> fst (step st t p) = Ret True"
    and "k' \<noteq> k \<Longrightarrow> snd (step st t p) k' = st k'"
  using assms
proof (induction rule: call_state.induct)
  case (returned b)
  { case 1 show ?case by (simp add: call_state.returned) }
  { case 2 then show ?case by simp }
  { case 3 show ?case by simp }
next
  case (head n)
  { case 1 show ?case using head
      by (cases n) (simp_all add: step_iteration call_state.returned call_state.loading) }
  { case 2 then show ?case by (cases n) (simp_all add: step_iteration) }
  { case 3 show ?case by (cases n) (simp_all add: step_iteration) }
next
  case (loading n t0)
  { case 1 show ?case using loading
      by (simp add: step_at_Load call_state.inserting call_state.updating split: option.split) }
  { case 2 then show ?case by (simp add: step_at_Load) }
  { case 3 show ?case by (simp add: step_at_Load) }
next
  case (inserting n t0)
  { case 1 show ?case using inserting
      by (simp add: step_at_LoadOrStore call_state.returned call_state.updating split: option.split) }
  { case 2 then show ?case by (simp add: step_at_LoadOrStore split: option.splits) }
  { case 3 then show ?case by (simp add: step_at_LoadOrStore split: option.splits) }
next
  case (updating n val)
  { case 1 show ?case using updating
      by (simp add: step_update call_state.returned call_state.swapping) }
  { case 2 then show ?case by (simp add: step_update) }
  { case 3 show ?case by (simp add: step_update) }
next
  case (swapping val t0 n)
  { case 1 show ?case using swapping
      by (simp add: step_at_CompareAndSwap call_state.returned call_state.head) }
  { case 2 then show ?case by (simp add: step_at_CompareAndSwap split: if_splits) }
  { case 3 then show ?case by (simp add: step_at_CompareAndSwap) }
qed

lemma after_Ret [simp]: "after (Ret b) env = Ret b"
  by (induction env) simp_all

lemma denied_quiet:
  assumes "call_state cv r k p" and "after p env = Ret False"
  shows "quiet p env"
  using assms
proof (induction env arbitrary: p)
  case Nil
  show ?case by simp
next
  case (Cons e env)
  have cs: "call_state cv r k (fst (step (fst e) (snd e) p))"
    using Cons.prems(1) by (rule call_state_step(1))
  have "snd (step (fst e) (snd e) p) = fst e"
  proof (rule ccontr)
    assume "snd (step (fst e) (snd e) p) \<noteq> fst e"
    with Cons.prems(1) have "fst (step (fst e) (snd e) p) = Ret True"
      by (rule call_state_step(2))
    with Cons.prems(2) show False by simp
  qed
  moreover have "quiet (fst (step (fst e) (snd e) p)) env"
    using cs Cons.prems(2) by (intro Cons.IH) simp_all
  ultimately show ?case by simp
qed



text \<open>
  C8.  When the refilled snapshot has no token, the call's next state is \<open>Ret False\<close>
  and the map is the one it was: there is no \<open>CompareAndSwap\<close>.  Run on its own, a call
  that returns \<open>false\<close> leaves the whole map, so also the key's \<open>lastActivity\<close>, unchanged.
  Among other goroutines: every state of a call is a \<open>call_state\<close>, and an action of a
  call that changes the map takes the call to \<open>Ret True\<close>.  So a call that returns
  \<open>false\<close>, also one that lost a race first and was denied on a later iteration, has
  changed nothing in the map, whatever the others did in between: \<open>lastActivity\<close> is
  written by allowed calls only.
\<close>

theorem denial_writes_nothing:
  "(tokens (refill cv r val t) = 0 \<longrightarrow> step st t (update cv r k retry val) = (Ret False, st))
   \<and> (exec (Allow cv r k) clk w = (False, w') \<longrightarrow> m w' = m w)
   \<and> call_state cv r k (Allow cv r k)
   \<and> (call_state cv r k p \<longrightarrow> call_state cv r k (fst (step sta ta p)))
   \<and> (call_state cv r k p' \<longrightarrow> snd (step stb tb p') \<noteq> stb \<longrightarrow> fst (step stb tb p') = Ret True)
   \<and> (after (Allow cv r k) env = Ret False \<longrightarrow> quiet (Allow cv r k) env)"
  using exec_Allow_False [of cv r k clk w w'] call_state_Allow [of cv r k]
    call_state_step(1) [of cv r k p sta ta] call_state_step(2) [of cv r k p' stb tb]
    denied_quiet [of cv r k "Allow cv r k" env]
  by (simp add: step_update)


text \<open>
  The witness has a call that loads a bucket with one token, loses it to another
  goroutine (which leaves \<open>lastActivity = 5\<close>), fails its \<open>CompareAndSwap\<close>, and is denied
  on the next iteration.
\<close>

theorem denial_writes_nothing_witness:
  "tokens (refill (\<lambda>x. 0) \<lparr>tokenRate = Fin 0, burstSize = 1\<rparr>
      \<lparr>tokens = 0, lastRefill = 0, lastActivity = 5\<rparr> 8) = 0
   \<and> step [''u'' \<mapsto> \<lparr>tokens = 0, lastRefill = 0, lastActivity = 5\<rparr>] 8
        (update (\<lambda>x. 0) \<lparr>tokenRate = Fin 0, burstSize = 1\<rparr> ''u'' (Ret False)
          \<lparr>tokens = 0, lastRefill = 0, lastActivity = 5\<rparr>)
       = (Ret False, [''u'' \<mapsto> \<lparr>tokens = 0, lastRefill = 0, lastActivity = 5\<rparr>])
   \<and> exec (Allow (\<lambda>x. 0) \<lparr>tokenRate = Fin 0, burstSize = 1\<rparr> ''u'') (\<lambda>n. 9)
        \<lparr>m = [''u'' \<mapsto> \<lparr>tokens = 0, lastRefill = 0, lastActivity = 5\<rparr>], ticks = 0\<rparr>
       = (False, \<lparr>m = [''u'' \<mapsto> \<lparr>tokens = 0, lastRefill = 0, lastActivity = 5\<rparr>], ticks = 2\<rparr>)
   \<and> call_state (\<lambda>x. 0) \<lparr>tokenRate = Fin 0, burstSize = 1\<rparr> ''u''
        (at_CompareAndSwap ''u'' (loop (\<lambda>x. 0) \<lparr>tokenRate = Fin 0, burstSize = 1\<rparr> ''u'' 99)
          \<lparr>tokens = 1, lastRefill = 0, lastActivity = 0\<rparr>
          \<lparr>tokens = 0, lastRefill = 0, lastActivity = 6\<rparr>)
   \<and> step [''u'' \<mapsto> \<lparr>tokens = 0, lastRefill = 0, lastActivity = 5\<rparr>] 6
        (at_CompareAndSwap ''u'' (loop (\<lambda>x. 0) \<lparr>tokenRate = Fin 0, burstSize = 1\<rparr> ''u'' 99)
          \<lparr>tokens = 1, lastRefill = 0, lastActivity = 0\<rparr>
          \<lparr>tokens = 0, lastRefill = 0, lastActivity = 6\<rparr>)
       = (loop (\<lambda>x. 0) \<lparr>tokenRate = Fin 0, burstSize = 1\<rparr> ''u'' 99,
          [''u'' \<mapsto> \<lparr>tokens = 0, lastRefill = 0, lastActivity = 5\<rparr>])
   \<and> call_state (\<lambda>x. 0) \<lparr>tokenRate = Fin 0, burstSize = 1\<rparr> ''u''
        (loop (\<lambda>x. 0) \<lparr>tokenRate = Fin 0, burstSize = 1\<rparr> ''u'' 99)
   \<and> step [''u'' \<mapsto> \<lparr>tokens = 1, lastRefill = 0, lastActivity = 0\<rparr>] 6
        (at_CompareAndSwap ''u'' (loop (\<lambda>x. 0) \<lparr>tokenRate = Fin 0, burstSize = 1\<rparr> ''u'' 99)
          \<lparr>tokens = 1, lastRefill = 0, lastActivity = 0\<rparr>
          \<lparr>tokens = 0, lastRefill = 0, lastActivity = 6\<rparr>)
       = (Ret True, [''u'' \<mapsto> \<lparr>tokens = 0, lastRefill = 0, lastActivity = 6\<rparr>])
   \<and> after (Allow (\<lambda>x. 0) \<lparr>tokenRate = Fin 0, burstSize = 1\<rparr> ''u'')
        [([''u'' \<mapsto> \<lparr>tokens = 1, lastRefill = 0, lastActivity = 0\<rparr>], 4),
         ([''u'' \<mapsto> \<lparr>tokens = 1, lastRefill = 0, lastActivity = 0\<rparr>], 4),
         ([''u'' \<mapsto> \<lparr>tokens = 0, lastRefill = 0, lastActivity = 5\<rparr>], 6),
         ([''u'' \<mapsto> \<lparr>tokens = 0, lastRefill = 0, lastActivity = 5\<rparr>], 6),
         ([''u'' \<mapsto> \<lparr>tokens = 0, lastRefill = 0, lastActivity = 5\<rparr>], 7),
         ([''u'' \<mapsto> \<lparr>tokens = 0, lastRefill = 0, lastActivity = 5\<rparr>], 7),
         ([''u'' \<mapsto> \<lparr>tokens = 0, lastRefill = 0, lastActivity = 5\<rparr>], 8)] = Ret False
   \<and> quiet (Allow (\<lambda>x. 0) \<lparr>tokenRate = Fin 0, burstSize = 1\<rparr> ''u'')
        [([''u'' \<mapsto> \<lparr>tokens = 1, lastRefill = 0, lastActivity = 0\<rparr>], 4),
         ([''u'' \<mapsto> \<lparr>tokens = 1, lastRefill = 0, lastActivity = 0\<rparr>], 4),
         ([''u'' \<mapsto> \<lparr>tokens = 0, lastRefill = 0, lastActivity = 5\<rparr>], 6),
         ([''u'' \<mapsto> \<lparr>tokens = 0, lastRefill = 0, lastActivity = 5\<rparr>], 6),
         ([''u'' \<mapsto> \<lparr>tokens = 0, lastRefill = 0, lastActivity = 5\<rparr>], 7),
         ([''u'' \<mapsto> \<lparr>tokens = 0, lastRefill = 0, lastActivity = 5\<rparr>], 7),
         ([''u'' \<mapsto> \<lparr>tokens = 0, lastRefill = 0, lastActivity = 5\<rparr>], 8)]"
proof -
  let ?r = "\<lparr>tokenRate = Fin 0, burstSize = 1\<rparr>"
  let ?b1 = "\<lparr>tokens = 1, lastRefill = 0, lastActivity = 0\<rparr>"
  let ?b0 = "\<lparr>tokens = 0, lastRefill = 0, lastActivity = 5\<rparr>"
  let ?p = "at_CompareAndSwap ''u'' (loop (\<lambda>x. 0) ?r ''u'' 99) ?b1
      \<lparr>tokens = 0, lastRefill = 0, lastActivity = 6\<rparr>"
  have g: "grant (\<lambda>x. 0) ?r (Sub t u) = 0" for t u
    by (rule grant_zero_rate) simp
  have r1: "refill (\<lambda>x. 0) ?r ?b1 t = ?b1" and r0: "refill (\<lambda>x. 0) ?r ?b0 t = ?b0" for t
    by (simp_all add: refill_def g)
  have c: "consume (refill (\<lambda>x. 0) ?r ?b1 6) 6 = \<lparr>tokens = 0, lastRefill = 0, lastActivity = 6\<rparr>"
    by (simp add: r1 consume_def)
  have cs: "call_state (\<lambda>x. 0) ?r ''u'' ?p"
    using call_state.swapping [where cv = "\<lambda>x. 0" and r = ?r and val = ?b1 and t = 6
        and k = "''u''" and n = 99]
    by (simp add: r1 consume_def)
  show ?thesis
    using cs denial_writes_nothing [where cv = "\<lambda>x. 0" and r = ?r and val = ?b0 and t = 8
      and st = "[''u'' \<mapsto> ?b0]" and k = "''u''" and retry = "Ret False" and clk = "\<lambda>n. 9"
      and w = "\<lparr>m = [''u'' \<mapsto> ?b0], ticks = 0\<rparr>"
      and w' = "\<lparr>m = [''u'' \<mapsto> ?b0], ticks = 2\<rparr>"
      and p = ?p and sta = "[''u'' \<mapsto> ?b0]" and ta = 6
      and p' = ?p and stb = "[''u'' \<mapsto> ?b1]" and tb = 6
      and env = "[([''u'' \<mapsto> ?b1], 4), ([''u'' \<mapsto> ?b1], 4), ([''u'' \<mapsto> ?b0], 6),
         ([''u'' \<mapsto> ?b0], 6), ([''u'' \<mapsto> ?b0], 7), ([''u'' \<mapsto> ?b0], 7), ([''u'' \<mapsto> ?b0], 8)]"]
    by (simp add: Allow_iteration exec_iteration exec_update step_iteration step_update step_at_Load
        step_at_CompareAndSwap loop_numeral r0 r1 consume_def)
qed

subsection \<open>The invariant of the map, in every reachable state\<close>

lemma refill_le_burst: "tokens (refill cv r val t) \<le> burstSize r"
  by (simp add: refill_fields)

lemma consume_le_burst:
  assumes "0 < tokens (refill cv r val t)"
  shows "tokens (consume (refill cv r val t) t) \<le> burstSize r"
proof -
  have "tokens (refill cv r val t) - 1 \<le> tokens (refill cv r val t)"
    using assms by (simp add: word_le_nat_alt unat_minus_one word_greater_zero_iff)
  also have "\<dots> \<le> burstSize r"
    by (rule refill_le_burst)
  finally show ?thesis
    by (simp add: consume_def)
qed

lemma fresh_le_burst:
  assumes "burstSize r \<noteq> 0"
  shows "tokens (fresh r t) \<le> burstSize r"
  using assms by (simp add: fresh_def word_le_nat_alt unat_minus_one)

lemma within_capacity_upd:
  "within_capacity r st \<Longrightarrow> tokens b \<le> burstSize r \<Longrightarrow> within_capacity r (st(k \<mapsto> b))"
  by (simp add: within_capacity_def)

lemma within_capacity_step:
  assumes "call_state cv r k p" and "within_capacity r st"
  shows "within_capacity r (snd (step st t p))"
  using assms
proof (induction rule: call_state.induct)
  case (returned b)
  then show ?case by simp
next
  case (head n)
  then show ?case by (cases n) (simp_all add: step_iteration)
next
  case (loading n t0)
  then show ?case by (simp add: step_at_Load)
next
  case (inserting n t0)
  then show ?case
    by (auto simp: step_at_LoadOrStore within_capacity_def fresh_le_burst split: option.split)
next
  case (updating n val)
  then show ?case by (simp add: step_update)
next
  case (swapping val t0 n)
  then show ?case
    by (auto simp: step_at_CompareAndSwap within_capacity_def consume_le_burst)
qed

lemma sys_ok_init: "sys_ok cv r (init t)"
  by (simp add: sys_ok_def init_def within_capacity_def)

lemma sys_ok_step:
  assumes "sys_ok cv r s" and "sys_step cv r ev s = Inr s'"
  shows "sys_ok cv r s'"
proof (cases ev)
  case (Call k)
  with assms show ?thesis
    using call_state_Allow [of cv r k] by (auto simp: sys_step_def sys_ok_def)
next
  case (Step i)
  show ?thesis
  proof (cases "i < length (threads s)")
    case True
    then have "threads s ! i \<in> set (threads s)" by simp
    with assms(1) obtain k where k: "call_state cv r k (threads s ! i)"
      by (auto simp: sys_ok_def)
    have s': "s' = s\<lparr>threads := (threads s)[i := fst (step (mem s) (clock s) (threads s ! i))],
                      mem := snd (step (mem s) (clock s) (threads s ! i))\<rparr>"
      using assms(2) Step True by (simp add: sys_step_def)
    have "within_capacity r (mem s')"
      using within_capacity_step [OF k, of "mem s" "clock s"] assms(1) by (simp add: s' sys_ok_def)
    moreover have "\<exists>k. call_state cv r k p" if "p \<in> set (threads s')" for p
    proof -
      from that have "p = fst (step (mem s) (clock s) (threads s ! i)) \<or> p \<in> set (threads s)"
        using set_update_subset_insert [of "threads s" i] by (auto simp: s')
      then show ?thesis
        using call_state_step(1) [OF k] assms(1) by (auto simp: sys_ok_def)
    qed
    ultimately show ?thesis by (simp add: sys_ok_def)
  next
    case False
    with assms Step show ?thesis by (simp add: sys_step_def)
  qed
next
  case (Clock t)
  with assms show ?thesis by (auto simp: sys_step_def sys_ok_def)
next
  case (Visit k)
  with assms show ?thesis
    by (auto simp: sys_step_def sys_ok_def split: sweeper.splits option.splits)
next
  case Decide
  with assms show ?thesis
    by (auto simp: sys_step_def sys_ok_def within_capacity_def map_Delete_def
        split: sweeper.splits if_splits)
next
  case Exit
  with assms show ?thesis by (auto simp: sys_step_def sys_ok_def split: if_splits)
next
  case CloseCall
  with assms show ?thesis
    by (auto simp: sys_step_def sys_ok_def split: sum.splits)
qed

lemma sys_ok_run:
  assumes "sys_ok cv r s" and "run cv r evs s = Inr s'"
  shows "sys_ok cv r s'"
  using assms
proof (induction evs arbitrary: s)
  case Nil
  then show ?case by simp
next
  case (Cons ev evs)
  then show ?case
    by (cases "sys_step cv r ev s") (auto dest: sys_ok_step)
qed

lemma reachable_within_capacity:
  assumes "run cv r evs (init t0) = Inr s" and "mem s k = Some b"
  shows "tokens b \<le> burstSize r"
proof -
  have "sys_ok cv r s"
    using sys_ok_init assms(1) by (rule sys_ok_run)
  then have "within_capacity r (mem s)"
    by (simp add: sys_ok_def)
  with assms(2) show ?thesis
    by (simp add: within_capacity_def)
qed


text \<open>
  C2.  The bucket a first request stores, the refilled snapshot, and what a
  \<open>CompareAndSwap\<close> writes (the refilled snapshot less one token) hold at most
  \<open>burstSize\<close> tokens, whatever the snapshot was.  In every state the limiter reaches from
  its start, by any events in any order (calls starting, actions of calls, clock changes,
  the visits and deletions of the cleanup goroutine, \<open>Close\<close>), every bucket in the map
  has \<open>0 \<le> tokens \<le> burstSize\<close>.
\<close>

theorem tokens_within_capacity:
  "(burstSize r \<noteq> 0 \<longrightarrow> tokens (fresh r t') \<le> burstSize r)
   \<and> tokens (refill cv r val t) \<le> burstSize r
   \<and> (0 < tokens (refill cv r val t) \<longrightarrow> tokens (consume (refill cv r val t) t) \<le> burstSize r)
   \<and> (run cv r evs (init t0) = Inr s \<longrightarrow> mem s k = Some b \<longrightarrow>
        0 \<le> unat (tokens b) \<and> unat (tokens b) \<le> unat (burstSize r))"
proof (intro conjI impI)
  show "tokens (refill cv r val t) \<le> burstSize r"
    by (rule refill_le_burst)
next
  assume "burstSize r \<noteq> 0"
  then show "tokens (fresh r t') \<le> burstSize r"
    by (rule fresh_le_burst)
next
  assume "0 < tokens (refill cv r val t)"
  then show "tokens (consume (refill cv r val t) t) \<le> burstSize r"
    by (rule consume_le_burst)
next
  assume "run cv r evs (init t0) = Inr s" and "mem s k = Some b"
  then have "tokens b \<le> burstSize r"
    by (rule reachable_within_capacity)
  then show "unat (tokens b) \<le> unat (burstSize r)"
    by (simp add: word_le_nat_alt)
qed simp



theorem tokens_within_capacity_witness:
  "burstSize \<lparr>tokenRate = Fin 0, burstSize = 3\<rparr> \<noteq> 0
   \<and> tokens (fresh \<lparr>tokenRate = Fin 0, burstSize = 3\<rparr> 0) \<le> burstSize \<lparr>tokenRate = Fin 0, burstSize = 3\<rparr>
   \<and> 0 < tokens (refill (\<lambda>x. 0) \<lparr>tokenRate = Fin 0, burstSize = 3\<rparr>
          \<lparr>tokens = 2, lastRefill = 0, lastActivity = 0\<rparr> 4)
   \<and> tokens (consume (refill (\<lambda>x. 0) \<lparr>tokenRate = Fin 0, burstSize = 3\<rparr>
          \<lparr>tokens = 2, lastRefill = 0, lastActivity = 0\<rparr> 4) 4) \<le> burstSize \<lparr>tokenRate = Fin 0, burstSize = 3\<rparr>
   \<and> run (\<lambda>x. 0) \<lparr>tokenRate = Fin 0, burstSize = 3\<rparr> [Call ''k'', Step 0, Step 0, Step 0] (init 0)
       = Inr \<lparr>mem = [''k'' \<mapsto> \<lparr>tokens = 2, lastRefill = 0, lastActivity = 0\<rparr>], clock = 0,
               threads = [Ret True], janitor = Idle, done_chan = Open\<rparr>
   \<and> mem \<lparr>mem = [''k'' \<mapsto> \<lparr>tokens = 2, lastRefill = 0, lastActivity = 0\<rparr>], clock = 0,
               threads = [Ret True], janitor = Idle, done_chan = Open\<rparr> ''k''
       = Some \<lparr>tokens = 2, lastRefill = 0, lastActivity = 0\<rparr>
   \<and> unat (tokens \<lparr>tokens = 2, lastRefill = 0, lastActivity = 0\<rparr>)
       \<le> unat (burstSize \<lparr>tokenRate = Fin 0, burstSize = 3\<rparr>)"
proof -
  let ?r = "\<lparr>tokenRate = Fin 0, burstSize = 3\<rparr>"
  let ?b = "\<lparr>tokens = 2, lastRefill = 0, lastActivity = 0\<rparr>"
  have g: "grant (\<lambda>x. 0) ?r (Sub t u) = 0" for t u
    by (rule grant_zero_rate) simp
  have rf: "refill (\<lambda>x. 0) ?r ?b 4 = ?b"
    by (simp add: refill_def g)
  have rn: "run (\<lambda>x. 0) ?r [Call ''k'', Step 0, Step 0, Step 0] (init 0)
      = Inr \<lparr>mem = [''k'' \<mapsto> ?b], clock = 0, threads = [Ret True], janitor = Idle, done_chan = Open\<rparr>"
    by (simp add: sys_step_def init_def Allow_points step_at_Load step_at_LoadOrStore fresh_def)
  show ?thesis
    using tokens_within_capacity [where r = ?r and t' = 0 and cv = "\<lambda>x. 0" and val = ?b and t = 4
        and evs = "[Call ''k'', Step 0, Step 0, Step 0]" and ?t0.0 = 0 and k = "''k''" and b = ?b
        and s = "\<lparr>mem = [''k'' \<mapsto> ?b], clock = 0, threads = [Ret True], janitor = Idle, done_chan = Open\<rparr>"]
    by (simp add: rf rn consume_def fresh_def del: run.simps)
qed

subsection \<open>More calls than retries\<close>

lemma run_append:
  "run cv r (xs @ ys) s = (case run cv r xs s of Inl p \<Rightarrow> Inl p | Inr s' \<Rightarrow> run cv r ys s')"
  by (induction xs arbitrary: s) (simp_all split: sum.split)

lemma run_Calls:
  "run cv r (replicate n (Call k)) s = Inr (s\<lparr>threads := threads s @ replicate n (Allow cv r k)\<rparr>)"
proof (induction n arbitrary: s)
  case 0
  show ?case by simp
next
  case (Suc n)
  show ?case
    by (simp add: Suc sys_step_def replicate_app_Cons_same)
qed


lemma step_loop_Suc:
  "step st t (loop cv r k (Suc n)) = (at_Load cv r k (loop cv r k n) t, st)"
  by (simp add: step_iteration)



lemma sys_step_Step:
  "i < length (threads s) \<Longrightarrow>
   sys_step cv r (Step i) s =
     Inr (s\<lparr>threads := (threads s)[i := fst (step (mem s) (clock s) (threads s ! i))],
            mem := snd (step (mem s) (clock s) (threads s ! i))\<rparr>)"
  by (simp add: sys_step_def)






lemma step_Allow:
  "burstSize r \<noteq> 0 \<Longrightarrow> step st t (Allow cv r k) = (at_Load cv r k (loop cv r k 99) t, st)"
  by (simp add: Allow_points)




subsection \<open>No more calls than retries\<close>



lemma not_allowed [simp]:
  "\<not> is_allowed (loop cv r k n)"
  "\<not> is_allowed (at_Load cv r k retry t)"
  "\<not> is_allowed (at_LoadOrStore cv r k retry t)"
  "\<not> is_allowed (update cv r k retry val)"
  "\<not> is_allowed (at_CompareAndSwap k retry val new)"
  by (cases n) (simp_all add: iteration_points at_Load_def at_LoadOrStore_def update_points
      at_CompareAndSwap_def)


















text \<open>
  The refill sum does not wrap at token rate zero (above), nor on a platform whose
  conversion gives \<open>0\<close> for negative values, at a rate of at most \<open>10^8\<close> tokens a second
  and a capacity of at most \<open>2^32\<close>.
\<close>

lemma quo_Second_bound:
  assumes "\<bar>d\<bar> \<le> 2 ^ 63"
  shows "\<bar>quo d Second\<bar> \<le> 9223372036"
proof -
  have "\<bar>d\<bar> div 1000000000 \<le> 2 ^ 63 div 1000000000"
    using assms by (intro zdiv_mono1) simp_all
  also have "(2 :: int) ^ 63 div 1000000000 = 9223372036"
    by simp
  finally show ?thesis
    by (simp add: quo_def Second_def abs_mult abs_sgn_eq)
qed

lemma Seconds_bound:
  assumes "minDuration \<le> d" and "d \<le> maxDuration"
  shows "\<exists>q. Seconds d = Fin q \<and> \<bar>q\<bar> \<le> 36893488161"
proof -
  have d: "\<bar>d\<bar> \<le> 2 ^ 63"
    using assms by (simp add: minDuration_def maxDuration_def)
  have "\<bar>real_of_int (quo d Second)\<bar> \<le> 9223372036"
  proof -
    have "real_of_int \<bar>quo d Second\<bar> \<le> real_of_int 9223372036"
      using quo_Second_bound [OF d] by (simp only: of_int_le_iff)
    then show ?thesis by simp
  qed
  from round64_finite [OF this] obtain q1
    where q1: "f64_of_int (quo d Second) = Fin q1" "\<bar>q1\<bar> \<le> 2 * 9223372036 + 1"
    unfolding f64_of_int_def by auto
  have "\<bar>real_of_int (rem d Second)\<bar> \<le> 1000000000"
  proof -
    have "real_of_int \<bar>rem d Second\<bar> \<le> real_of_int 1000000000"
      using rem_Second(1) [of d] by (simp only: of_int_le_iff)
    then show ?thesis by simp
  qed
  from round64_finite [OF this] obtain q2
    where q2: "f64_of_int (rem d Second) = Fin q2" "\<bar>q2\<bar> \<le> 2 * 1000000000 + 1"
    unfolding f64_of_int_def by auto
  have "\<bar>q2 / 1000000000\<bar> \<le> 3"
    using q2(2) by simp
  from round64_finite [OF this] obtain q3
    where q3: "round64 (q2 / 1000000000) = Fin q3" "\<bar>q3\<bar> \<le> 2 * 3 + 1"
    by auto
  have "\<bar>q1 + q3\<bar> \<le> 18446744080"
    using q1(2) q3(2) by simp
  from round64_finite [OF this] obtain q
    where q: "round64 (q1 + q3) = Fin q" "\<bar>q\<bar> \<le> 2 * 18446744080 + 1"
    by auto
  have "Seconds d = Fin q"
    by (simp add: Seconds_def Let_def q1(1) q2(1) q3(1) q(1))
  with q(2) show ?thesis by simp
qed

lemma no_wrap_saturating:
  assumes cv: "\<forall>x. f64_less x (Fin 0) \<longrightarrow> cv x = 0"
    and r: "tokenRate r = Fin a" "0 \<le> a" "a \<le> 100000000"
    and b: "unat (burstSize r) \<le> 2 ^ 32"
  shows "no_wrap cv r"
proof -
  have "unat (grant cv r d) + unat (burstSize r) < 2 ^ 64"
    if d: "minDuration \<le> d" "d \<le> maxDuration" for d
  proof (cases "d \<le> 0")
    case True
    have "grant cv r d = 0"
      using cv r(1,2) d(1) True by (rule grant_negative_saturating)
    then show ?thesis using b by simp
  next
    case False
    obtain s where s: "Seconds d = Fin s" "\<bar>s\<bar> \<le> 36893488161"
      using Seconds_bound [OF d] by blast
    have s0: "0 \<le> s"
      using Seconds_finite [OF d] s(1) False by auto
    have "a * s \<le> 100000000 * 36893488161"
      using r(2,3) s(2) s0 by (intro mult_mono) simp_all
    then have "\<bar>a * s\<bar> \<le> 3689348816100000000"
      using r(2) s0 by simp
    from round64_finite [OF this] obtain p
      where p: "round64 (a * s) = Fin p" "\<bar>p\<bar> \<le> 2 * 3689348816100000000 + 1" "0 \<le> p"
      using r(2) s0 by auto
    have "unat (grant cv r d) = nat \<lfloor>p\<rfloor>"
      using r(1) s(1) p(1,3) p(2) by (intro grant_in_range(2)) simp_all
    moreover have "real (nat \<lfloor>p\<rfloor>) \<le> p"
      using p(3) by simp
    then have "real (nat \<lfloor>p\<rfloor>) \<le> real 7378697632200000001"
      using p(2) by simp
    then have "nat \<lfloor>p\<rfloor> \<le> 7378697632200000001"
      by (simp only: of_nat_le_iff)
    ultimately show ?thesis using b by simp
  qed
  then show ?thesis
    by (simp add: no_wrap_def)
qed


text \<open>
  Where the sum does wrap, a call can be denied even among two: the clock runs back
  by a second between the two calls, the conversion keeps the low 64 bits, and
  \<open>uint(-1.0) + 1\<close> is \<open>0\<close>.
\<close>

lemma wrap_denies:
  "run wrapping \<lparr>tokenRate = Fin 1, burstSize = 2\<rparr>
     (replicate 2 (Call ''k'') @
        [Clock 1000000000, Step 0, Step 0, Step 0, Clock 0, Step 1, Step 1, Step 1]) (init 0)
   = Inr \<lparr>mem = [''k'' \<mapsto> \<lparr>tokens = 1, lastRefill = 1000000000, lastActivity = 1000000000\<rparr>],
           clock = 0, threads = [Ret True, Ret False], janitor = Idle, done_chan = Open\<rparr>"
proof -
  let ?r = "\<lparr>tokenRate = Fin 1, burstSize = 2\<rparr>"
  let ?A = "Allow wrapping ?r ''k''"
  have c: "\<lceil>- 1 :: real\<rceil> = - 1"
    using ceiling_of_int [of "- 1", where 'a = real] by simp
  have g: "grant wrapping ?r (Sub 0 1000000000) = - 1"
    by (simp add: grant_eval wrapping_def c)
  have rf: "refill wrapping ?r \<lparr>tokens = 1, lastRefill = 1000000000, lastActivity = 1000000000\<rparr> 0
      = \<lparr>tokens = 0, lastRefill = 0, lastActivity = 1000000000\<rparr>"
    by (simp add: refill_def g)
  have rep: "replicate 2 ?A = [?A, ?A]"
    by (simp add: numeral_2_eq_2)
  have "run wrapping ?r [Clock 1000000000, Step 0, Step 0, Step 0, Clock 0, Step 1, Step 1, Step 1]
      ((init 0)\<lparr>threads := [?A, ?A]\<rparr>)
      = Inr \<lparr>mem = [''k'' \<mapsto> \<lparr>tokens = 1, lastRefill = 1000000000, lastActivity = 1000000000\<rparr>],
           clock = 0, threads = [Ret True, Ret False], janitor = Idle, done_chan = Open\<rparr>"
    by (simp add: sys_step_Step sys_step_def init_def step_Allow step_at_Load step_at_LoadOrStore
        step_update fresh_def rf)
  then show ?thesis
    by (simp only: run_append run_Calls sum.case rep) (simp add: init_def)
qed





subsection \<open>Close\<close>

text \<open>
  C10 (fails on the code).  The second \<open>Close\<close> on a limiter closes a closed channel,
  which panics.
\<close>

theorem close_twice_panics:
  "closes 2 Open = Inl (Panic ''close of closed channel'')"
  by (simp add: numeral_2_eq_2 Close_def)

text \<open>
  C10, amended.  The first \<open>Close\<close> closes the channel and returns; every sequence of
  two or more calls panics.
\<close>

theorem close_once:
  "closes 1 Open = Inr Closed
   \<and> closes (Suc (Suc n)) Open = Inl (Panic ''close of closed channel'')"
  by (simp add: Close_def)

end
